theory Spec2Isabelle
  imports Complex_Main "HOL-Library.Sublist"
begin

unbundle bit_operations_syntax

section \<open>Numbers, points and the canvas\<close>

text \<open>
  JavaScript numbers are modelled as reals; arithmetic on finite values is exact (the rounding
  of each IEEE double operation is not modelled). A store into a \<^verbatim>\<open>Float32Array\<close> narrows the
  number to single precision; this is modelled, by \<open>fround\<close> below. The values a grid read can
  produce besides a finite number are kept apart: \<^verbatim>\<open>NaN\<close>, the two infinities, and
  \<^verbatim>\<open>undefined\<close> (a typed-array read outside the array).
\<close>

datatype jsval = Fin (theNum: real) | NaN | PosInf | NegInf | Undefined




text \<open>\<^verbatim>\<open>Number.isFinite\<close>\<close>

definition isFinite :: "jsval \<Rightarrow> bool" where
  "isFinite v = (case v of Fin _ \<Rightarrow> True | _ \<Rightarrow> False)"

text \<open>\<^verbatim>\<open>gridVals[k]\<close> on a typed array: \<^verbatim>\<open>undefined\<close> outside the array.\<close>

definition gridRead :: "jsval list \<Rightarrow> nat \<Rightarrow> jsval" where
  "gridRead gridVals k = (if k < length gridVals then gridVals ! k else Undefined)"

text \<open>\<^verbatim>\<open>a || b\<close> on finite numbers: \<^verbatim>\<open>b\<close> when \<^verbatim>\<open>a\<close> is zero.\<close>

definition orElse :: "real \<Rightarrow> real \<Rightarrow> real" where
  "orElse a b = (if a = 0 then b else a)"

text \<open>\<^verbatim>\<open>Math.round\<close>: the nearest integer, a tie going up.\<close>

definition js_round :: "real \<Rightarrow> int" where
  "js_round r = \<lfloor>r + 1 / 2\<rfloor>"

record Pt =
  x :: real
  y :: real

text \<open>
  The 2D canvas context is the list of the calls and property assignments made on it, in order,
  together with the one piece of state the drawing code reads back, \<^verbatim>\<open>lineWidth\<close>, and the stack
  that \<^verbatim>\<open>save\<close>/\<^verbatim>\<open>restore\<close> keep for it. Text is kept as the value it prints: an integer,
  an integer padded to three digits, an integer followed by the degree sign and the unit
  letter, or a bare integer.
\<close>

datatype TempUnit = F | C

datatype labelText =
    IntText int
  | Pad3Text int
  | DegreeText int TempUnit
  | PlainText int

datatype prim =
    BeginPath
  | MoveTo real real
  | LineTo real real
  | Arc real real real real real
  | ClosePath
  | Stroke
  | Fill
  | Save
  | Restore
  | Translate real real
  | Rotate real
  | SetLineWidth real
  | SetStrokeStyle string
  | SetFillStyle string
  | SetGlobalAlpha real
  | SetCompositeOp string
  | SetLineDash "real list"
  | SetFont string
  | SetTextAlign string
  | SetTextBaseline string
  | FillText labelText real real
  | StrokeText labelText real real

record ctx =
  lineWidth :: real
  saved :: "real list"
  calls :: "prim list"

definition emit :: "prim list \<Rightarrow> ctx \<Rightarrow> ctx" where
  "emit ps c = c\<lparr>calls := calls c @ ps\<rparr>"

definition setLineWidth :: "real \<Rightarrow> ctx \<Rightarrow> ctx" where
  "setLineWidth w c = c\<lparr>lineWidth := w, calls := calls c @ [SetLineWidth w]\<rparr>"

definition save :: "ctx \<Rightarrow> ctx" where
  "save c = c\<lparr>saved := lineWidth c # saved c, calls := calls c @ [Save]\<rparr>"

definition restore :: "ctx \<Rightarrow> ctx" where
  "restore c =
     (case saved c of
        [] \<Rightarrow> c\<lparr>calls := calls c @ [Restore]\<rparr>
      | w # ws \<Rightarrow> c\<lparr>lineWidth := w, saved := ws, calls := calls c @ [Restore]\<rparr>)"

section \<open>Observations\<close>

text \<open>
  \<^verbatim>\<open>SurfaceObs\<close>, with the fields the analysis and plotting code reads. A field typed
  \<^verbatim>\<open>number | null\<close> is an option. \<^verbatim>\<open>tempC\<close> is typed \<^verbatim>\<open>number\<close>, so the null check that
  \<^verbatim>\<open>drawOne\<close> makes on it never fires and has no branch here.
\<close>

record SkyCondition =
  cover :: string
  level_ft :: "real option"

record SurfaceObs =
  id :: string
  name :: string
  lat :: real
  lon :: real
  tempC :: real
  dewpointC :: "real option"
  windDirDeg :: "real option"
  windSpeedKt :: "real option"
  skyConditions :: "SkyCondition list"
  pressureMb :: "real option"

definition celsiusToFahrenheit :: "real \<Rightarrow> real" where
  "celsiusToFahrenheit c = (c * 9) / 5 + 32"

text \<open>
  \<^verbatim>\<open>map.project([lon, lat])\<close> of the map widget: the pixel position, or \<open>None\<close> when the call
  throws (the widget rejects an invalid coordinate).
\<close>

type_synonym projector = "real \<Rightarrow> real \<Rightarrow> Pt option"

datatype error = ProjectionError

text \<open>A projector for the worked examples: equirectangular, rejecting a latitude outside
  \<open>[-90, 90]\<close>.\<close>

definition exampleProject :: projector where
  "exampleProject lo la =
     (if - 90 \<le> la \<and> la \<le> 90 then Some \<lparr>x = (lo + 180) * 4, y = (90 - la) * 4\<rparr> else None)"

definition exampleObs :: "string \<Rightarrow> real \<Rightarrow> real \<Rightarrow> SurfaceObs" where
  "exampleObs i lo la =
     \<lparr>id = i, name = i, lat = la, lon = lo, tempC = 20, dewpointC = None, windDirDeg = None,
      windSpeedKt = None, skyConditions = [], pressureMb = None\<rparr>"

section \<open>Decluttering: \<^verbatim>\<open>thinByPixelGrid\<close> and \<^verbatim>\<open>declutteredObs\<close>\<close>

text \<open>
  \<^verbatim>\<open>Math.floor(a / c)\<close> as it is printed into the bucket key: an integer, or an infinity or
  \<^verbatim>\<open>NaN\<close> when the cell size is zero.
\<close>

definition floorDiv :: "real \<Rightarrow> real \<Rightarrow> jsval" where
  "floorDiv a c =
     (if c = 0 then (if a > 0 then PosInf else if a < 0 then NegInf else NaN)
      else Fin (of_int \<lfloor>a / c\<rfloor>))"

definition keyOf :: "Pt \<Rightarrow> real \<Rightarrow> jsval \<times> jsval" where
  "keyOf p cellSizePx = (floorDiv (x p) cellSizePx, floorDiv (y p) cellSizePx)"

fun thinLoop ::
  "projector \<Rightarrow> real \<Rightarrow> SurfaceObs list \<Rightarrow> (jsval \<times> jsval) set \<Rightarrow> SurfaceObs list
     \<Rightarrow> error + SurfaceObs list" where
  "thinLoop project cellSizePx [] seen out = Inr out"
| "thinLoop project cellSizePx (s # stations) seen out =
     (case project (lon s) (lat s) of
        None \<Rightarrow> Inl ProjectionError
      | Some p \<Rightarrow>
          let key = keyOf p cellSizePx
          in if key \<in> seen then thinLoop project cellSizePx stations seen out
             else thinLoop project cellSizePx stations (insert key seen) (out @ [s]))"

definition thinByPixelGrid ::
  "SurfaceObs list \<Rightarrow> projector \<Rightarrow> real \<Rightarrow> error + SurfaceObs list" where
  "thinByPixelGrid stations project cellSizePx = thinLoop project cellSizePx stations {} []"

datatype DensityMode = Sparse | Medium | Dense

definition densityMultiplier :: "DensityMode \<Rightarrow> real" where
  "densityMultiplier densityMode =
     (case densityMode of Dense \<Rightarrow> 1 / 4 | Sparse \<Rightarrow> 4 | Medium \<Rightarrow> 2)"

text \<open>The map is \<open>None\<close> when \<^verbatim>\<open>getMapOrNull\<close> returns null; the zoom is \<open>None\<close> when
  \<^verbatim>\<open>viewState.zoom\<close> is null or undefined.\<close>

definition declutteredObs ::
  "projector option \<Rightarrow> real option \<Rightarrow> DensityMode \<Rightarrow> SurfaceObs list
     \<Rightarrow> error + SurfaceObs list" where
  "declutteredObs mapObj zoom densityMode obs =
     (case mapObj of
        None \<Rightarrow> Inr obs
      | Some project \<Rightarrow>
          let z = (case zoom of None \<Rightarrow> 0 | Some z \<Rightarrow> z);
              baseCell = (if z < 4 then 30 else if z < 6 then 22 else if z < 8 then 15
                          else if z < 10 then 10 else (0::real))
          in if baseCell = 0 then Inr obs
             else
               let cell = max 6 (of_int (js_round (baseCell * densityMultiplier densityMode)))
               in thinByPixelGrid obs project cell)"

text \<open>The bucket an observation falls in, when its projection succeeds.\<close>

definition bucketKey :: "projector \<Rightarrow> real \<Rightarrow> SurfaceObs \<Rightarrow> (jsval \<times> jsval) option" where
  "bucketKey project cellSizePx s =
     (case project (lon s) (lat s) of None \<Rightarrow> None | Some p \<Rightarrow> Some (keyOf p cellSizePx))"

section \<open>Wind barbs: \<^verbatim>\<open>drawWindBarb\<close>\<close>

text \<open>The speed rounded to the nearest 5 kt, and its split into 50-kt flags, 10-kt barbs and
  a 5-kt half barb.\<close>

definition roundedSpeed :: "real \<Rightarrow> int" where
  "roundedSpeed spd = js_round (spd / 5) * 5"

definition barbCounts :: "real \<Rightarrow> int \<times> int \<times> int" where
  "barbCounts spd =
     (let v = roundedSpeed spd;
          n50 = \<lfloor>real_of_int v / 50\<rfloor>;
          v = v - n50 * 50;
          n10 = \<lfloor>real_of_int v / 10\<rfloor>;
          v = v - n10 * 10;
          n5 = (if v \<ge> 5 then 1 else 0)
      in (n50, n10, n5))"

text \<open>The loops carry the position \<open>(bx, by)\<close> on the staff and the context.\<close>

definition flagStep ::
  "real \<Rightarrow> real \<Rightarrow> real \<Rightarrow> real \<Rightarrow> real \<times> real \<times> ctx \<Rightarrow> real \<times> real \<times> ctx" where
  "flagStep dx dy px py st =
     (case st of (bx, by, c) \<Rightarrow>
        let flagLen = 12; barbLen = 11;
            fx1 = bx; fy1 = by;
            fx2 = bx - flagLen * dx; fy2 = by - flagLen * dy;
            fx3 = fx2 + barbLen * px; fy3 = fy2 + barbLen * py;
            c = emit [BeginPath, MoveTo fx1 fy1, LineTo fx2 fy2, LineTo fx3 fy3,
                      ClosePath, Fill, Stroke] c
        in (bx - (flagLen + 1) * dx, by - (flagLen + 1) * dy, c))"

definition barbStep ::
  "real \<Rightarrow> real \<Rightarrow> real \<Rightarrow> real \<Rightarrow> real \<times> real \<times> ctx \<Rightarrow> real \<times> real \<times> ctx" where
  "barbStep dx dy px py st =
     (case st of (bx, by, c) \<Rightarrow>
        let step = 5; barbLen = 11;
            c = emit [BeginPath, MoveTo bx by, LineTo (bx + barbLen * px) (by + barbLen * py),
                      Stroke] c
        in (bx - step * dx, by - step * dy, c))"

definition drawWindBarb ::
  "ctx \<Rightarrow> real \<Rightarrow> real \<Rightarrow> real \<Rightarrow> real option \<Rightarrow> real option \<Rightarrow> ctx" where
  "drawWindBarb c sx sy attachRadius dirDeg spdKt =
     (if dirDeg = None \<or> spdKt = None then c
      else
        let spd = max 0 (the spdKt)
        in if spd < 2 then
             let prev = lineWidth c;
                 c = setLineWidth 1 c;
                 c = emit [BeginPath, Arc sx sy 5 0 (pi * 2), Stroke] c
             in setLineWidth prev c
           else
             let theta = ((the dirDeg - 90) * pi) / 180;
                 dx = cos theta;
                 dy = sin theta;
                 staffLen = 30;
                 x0 = sx + attachRadius * dx;
                 y0 = sy + attachRadius * dy;
                 x2 = x0 + staffLen * dx;
                 y2 = y0 + staffLen * dy;
                 c = emit [BeginPath, MoveTo x0 y0, LineTo x2 y2, Stroke] c;
                 px = cos (theta + pi / 2);
                 py = sin (theta + pi / 2);
                 (n50, n10, n5) = barbCounts spd;
                 st = ((flagStep dx dy px py) ^^ (nat n50)) (x2, y2, c);
                 st = ((barbStep dx dy px py) ^^ (nat n10)) st
             in case st of (bx, by, c) \<Rightarrow>
                  if n5 \<noteq> 0 then
                    emit [BeginPath, MoveTo bx by,
                          LineTo (bx + (11 * (1 / 2)) * px) (by + (11 * (1 / 2)) * py), Stroke] c
                  else c)"

section \<open>Station plots: \<^verbatim>\<open>drawStationPlots\<close>\<close>

definition skyFill :: "string \<Rightarrow> real" where
  "skyFill cv =
     (if cv = ''OVC'' then 1 else if cv = ''BKN'' then 3 / 4 else if cv = ''SCT'' then 1 / 2
      else if cv = ''FEW'' then 1 / 4 else 0)"

text \<open>The remainder operator \<^verbatim>\<open>%\<close> on integers: the sign of the dividend.\<close>

definition jsRem :: "int \<Rightarrow> int \<Rightarrow> int" where
  "jsRem a b = sgn a * (\<bar>a\<bar> mod \<bar>b\<bar>)"

text \<open>The body of the \<^verbatim>\<open>try\<close> block after the projection has returned \<open>point\<close>.\<close>

definition plotStation ::
  "ctx \<Rightarrow> real \<Rightarrow> real \<Rightarrow> real \<Rightarrow> TempUnit \<Rightarrow> SurfaceObs \<Rightarrow> Pt \<Rightarrow> ctx" where
  "plotStation c width height zoom tempUnit station point =
     (if x point < - 50 \<or> x point > width + 50 \<or> y point < - 50 \<or> y point > height + 50 then c
      else
        let showNumbers = (zoom \<ge> 4);
            showPressure = (zoom \<ge> 5);
            sx = x point;
            sy = y point;
            radius = (if zoom < 15 / 2 then 6 else 8);
            maxFill = fold (\<lambda>sc maxFill. max maxFill (skyFill (cover sc)))
                        (skyConditions station) 0;
            c = emit [SetStrokeStyle ''#000000''] c;
            c = setLineWidth (3 / 2) c;
            c = emit [BeginPath, Arc sx sy radius 0 (pi * 2), Stroke] c;
            c = (if maxFill > 0 then
                   emit [SetFillStyle ''rgba(148, 163, 184, 0.4)'', BeginPath, MoveTo sx sy,
                         Arc sx sy radius (- pi / 2) (- pi / 2 + pi * 2 * maxFill),
                         ClosePath, Fill] c
                 else c);
            c = (if showNumbers then
                   let temp = (if tempUnit = F
                               then js_round (celsiusToFahrenheit (tempC station))
                               else js_round (tempC station));
                       c = emit [SetFillStyle ''#f87171'', SetFont ''10px system-ui, sans-serif'',
                                 SetTextAlign ''right'', SetTextBaseline ''bottom'',
                                 FillText (IntText temp) (sx - radius - 2) (sy - radius - 2)] c
                   in if dewpointC station \<noteq> None then
                        let dewp = (if tempUnit = F
                                    then js_round (celsiusToFahrenheit (the (dewpointC station)))
                                    else js_round (the (dewpointC station)))
                        in emit [SetFillStyle ''#4ade80'', SetTextBaseline ''top'',
                                 FillText (IntText dewp) (sx - radius - 2) (sy + radius + 2)] c
                      else c
                 else c);
            c = (if showPressure \<and> pressureMb station \<noteq> None then
                   let slp = jsRem (js_round (the (pressureMb station) * 10)) 1000
                   in emit [SetFillStyle ''#000000'', SetTextAlign ''left'',
                            SetTextBaseline ''bottom'',
                            FillText (Pad3Text slp) (sx + radius + 2) (sy - radius - 2)] c
                 else c)
        in if windDirDeg station \<noteq> None \<and> windSpeedKt station \<noteq> None then
             let c = emit [SetStrokeStyle ''#000000'', SetFillStyle ''#000000''] c;
                 c = setLineWidth (3 / 2) c;
                 c = drawWindBarb c sx sy radius (windDirDeg station) (windSpeedKt station)
             in setLineWidth 1 c
           else c)"

text \<open>
  The station loop, on a cleared context. A projection that throws is caught by the
  \<^verbatim>\<open>try\<close>/\<^verbatim>\<open>catch\<close> around the body, whose handler is \<^verbatim>\<open>continue\<close>.
\<close>

definition drawStationPlots ::
  "ctx \<Rightarrow> projector \<Rightarrow> real \<Rightarrow> real \<Rightarrow> real \<Rightarrow> TempUnit \<Rightarrow> SurfaceObs list \<Rightarrow> ctx" where
  "drawStationPlots c project width height zoom tempUnit stations =
     fold (\<lambda>station c.
             case project (lon station) (lat station) of
               None \<Rightarrow> c
             | Some point \<Rightarrow> plotStation c width height zoom tempUnit station point)
          stations c"

section \<open>Marching squares: \<^verbatim>\<open>contoursForLevel\<close>\<close>

definition interp :: "real \<Rightarrow> real \<Rightarrow> real \<Rightarrow> real" where
  "interp a b t = a + (b - a) * t"

definition idx :: "nat \<Rightarrow> nat \<Rightarrow> nat \<Rightarrow> nat" where
  "idx nx i j = j * nx + i"

text \<open>The bitmask: 1, 2, 4, 8 for the corners that are \<open>\<ge> level\<close>.\<close>

definition cornerCode :: "real \<Rightarrow> real \<Rightarrow> real \<Rightarrow> real \<Rightarrow> real \<Rightarrow> nat" where
  "cornerCode v0 v1 v2 v3 level =
     (let c = 0;
          c = (if v0 \<ge> level then c OR 1 else c);
          c = (if v1 \<ge> level then c OR 2 else c);
          c = (if v2 \<ge> level then c OR 4 else c);
          c = (if v3 \<ge> level then c OR 8 else c)
      in c)"

text \<open>The \<^verbatim>\<open>switch (c)\<close>: the segments pushed for each code; no default case.\<close>

definition segmentsOfCode :: "nat \<Rightarrow> Pt \<Rightarrow> Pt \<Rightarrow> Pt \<Rightarrow> Pt \<Rightarrow> Pt list list" where
  "segmentsOfCode c p01 p12 p23 p30 =
     (if c = 1 then [[p30, p01]]
      else if c = 2 then [[p01, p12]]
      else if c = 3 then [[p30, p12]]
      else if c = 4 then [[p12, p23]]
      else if c = 5 then [[p30, p23], [p01, p12]]
      else if c = 6 then [[p01, p23]]
      else if c = 7 then [[p30, p23]]
      else if c = 8 then [[p23, p30]]
      else if c = 9 then [[p01, p23]]
      else if c = 10 then [[p01, p30], [p12, p23]]
      else if c = 11 then [[p12, p23]]
      else if c = 12 then [[p12, p30]]
      else if c = 13 then [[p01, p12]]
      else if c = 14 then [[p30, p01]]
      else [])"

text \<open>The body of the two loops, for the cell whose top-left node is \<open>(i, j)\<close>.\<close>

definition cellSegments ::
  "jsval list \<Rightarrow> nat \<Rightarrow> real \<Rightarrow> real \<Rightarrow> nat \<Rightarrow> nat \<Rightarrow> Pt list list" where
  "cellSegments gridVals nx step level i j =
     (let v0 = gridRead gridVals (idx nx i j);
          v1 = gridRead gridVals (idx nx (i + 1) j);
          v2 = gridRead gridVals (idx nx (i + 1) (j + 1));
          v3 = gridRead gridVals (idx nx i (j + 1))
      in if \<not> isFinite v0 \<or> \<not> isFinite v1 \<or> \<not> isFinite v2 \<or> \<not> isFinite v3 then []
         else
           let v0 = theNum v0; v1 = theNum v1; v2 = theNum v2; v3 = theNum v3;
               c = cornerCode v0 v1 v2 v3 level
           in if c = 0 \<or> c = 15 then []
              else
                let x = real i * step;
                    y = real j * step;
                    t01 = (level - v0) / orElse (v1 - v0) (1 / 10 ^ 9);
                    t12 = (level - v1) / orElse (v2 - v1) (1 / 10 ^ 9);
                    t23 = (level - v2) / orElse (v3 - v2) (1 / 10 ^ 9);
                    t30 = (level - v3) / orElse (v0 - v3) (1 / 10 ^ 9);
                    p01 = \<lparr>x = x + interp 0 step t01, y = y\<rparr>;
                    p12 = \<lparr>x = x + step, y = y + interp 0 step t12\<rparr>;
                    p23 = \<lparr>x = x + interp step 0 t23, y = y + step\<rparr>;
                    p30 = \<lparr>x = x, y = y + interp step 0 t30\<rparr>
                in segmentsOfCode c p01 p12 p23 p30)"

definition contoursForLevel ::
  "jsval list \<Rightarrow> nat \<Rightarrow> nat \<Rightarrow> real \<Rightarrow> real \<Rightarrow> Pt list list" where
  "contoursForLevel gridVals nx ny step level =
     fold (\<lambda>j lines.
             fold (\<lambda>i lines. lines @ cellSegments gridVals nx step level i j) [0..<nx - 1] lines)
          [0..<ny - 1] []"

text \<open>A cell is uniform at a level when its four corners are all at or above it, or all below.\<close>

definition uniformCell :: "real \<Rightarrow> real \<Rightarrow> real \<Rightarrow> real \<Rightarrow> real \<Rightarrow> bool" where
  "uniformCell v0 v1 v2 v3 level =
     ((v0 \<ge> level \<and> v1 \<ge> level \<and> v2 \<ge> level \<and> v3 \<ge> level) \<or>
      (v0 < level \<and> v1 < level \<and> v2 < level \<and> v3 < level))"

text \<open>The four corners of the cell at \<open>(i, j)\<close> are all finite numbers.\<close>

definition cellFinite :: "jsval list \<Rightarrow> nat \<Rightarrow> nat \<Rightarrow> nat \<Rightarrow> bool" where
  "cellFinite gridVals nx i j =
     (isFinite (gridRead gridVals (idx nx i j)) \<and>
      isFinite (gridRead gridVals (idx nx (i + 1) j)) \<and>
      isFinite (gridRead gridVals (idx nx (i + 1) (j + 1))) \<and>
      isFinite (gridRead gridVals (idx nx i (j + 1))))"

text \<open>The cell at \<open>(i, j)\<close> is fully populated and uniform at the level.\<close>

definition cellUniform :: "jsval list \<Rightarrow> nat \<Rightarrow> real \<Rightarrow> nat \<Rightarrow> nat \<Rightarrow> bool" where
  "cellUniform gridVals nx level i j =
     (cellFinite gridVals nx i j \<and>
      uniformCell (theNum (gridRead gridVals (idx nx i j)))
                  (theNum (gridRead gridVals (idx nx (i + 1) j)))
                  (theNum (gridRead gridVals (idx nx (i + 1) (j + 1))))
                  (theNum (gridRead gridVals (idx nx i (j + 1)))) level)"

section \<open>Scalar analysis: \<^verbatim>\<open>drawOne\<close>\<close>

datatype AnalysisOverlay = Temp | Dewpoint | Slp | Wind



record Neighbor =
  d2 :: real
  nval :: real


text \<open>The scan over \<open>k\<close>: the new neighbour goes before the first one that is strictly
  farther, or to the end.\<close>

fun insertNeighbor :: "Neighbor \<Rightarrow> Neighbor list \<Rightarrow> Neighbor list" where
  "insertNeighbor n [] = [n]"
| "insertNeighbor n (m # ms) = (if d2 n < d2 m then n # m # ms else m # insertNeighbor n ms)"







text \<open>The scan for the finite minimum and maximum. \<open>None\<close> is the initial \<^verbatim>\<open>Infinity\<close>
  (for the minimum) and \<^verbatim>\<open>-Infinity\<close> (for the maximum), which every finite value beats.\<close>

definition minMaxStep ::
  "jsval \<Rightarrow> real option \<times> real option \<Rightarrow> real option \<times> real option" where
  "minMaxStep v st =
     (case st of (minV, maxV) \<Rightarrow>
        if \<not> isFinite v then (minV, maxV)
        else
          (case minV of None \<Rightarrow> Some (theNum v)
             | Some m \<Rightarrow> if theNum v < m then Some (theNum v) else Some m,
           case maxV of None \<Rightarrow> Some (theNum v)
             | Some m \<Rightarrow> if theNum v > m then Some (theNum v) else Some m))"

definition gridMinMax :: "jsval list \<Rightarrow> (real \<times> real) option" where
  "gridMinMax gridVals =
     (case fold minMaxStep gridVals (None, None) of
        (Some minV, Some maxV) \<Rightarrow> Some (minV, maxV)
      | _ \<Rightarrow> None)"

text \<open>The level loops: \<^verbatim>\<open>for (let v = start; v <= end; v += interval)\<close>.\<close>

function tempLoop :: "TempUnit \<Rightarrow> real \<Rightarrow> real \<Rightarrow> real list" where
  "tempLoop tempUnit v endV =
     (if v \<le> endV then v # tempLoop tempUnit (v + (if tempUnit = F then 5 else 2)) endV else [])"
  by pat_completeness auto
termination
proof (relation "measure (\<lambda>(u, v, e). nat (\<lfloor>(e - v) / (if u = F then 5 else 2)\<rfloor> + 1))")
  show "wf (measure (\<lambda>(u, v, e). nat (\<lfloor>(e - v) / (if u = F then 5 else 2)\<rfloor> + 1)))"
    by simp
next
  fix tempUnit :: TempUnit and v endV :: real
  assume le: "v \<le> endV"
  define i :: real where "i = (if tempUnit = F then 5 else 2)"
  have ipos: "0 < i" by (simp add: i_def)
  have "(endV - (v + i)) / i = (endV - v) / i - 1"
    using ipos by (simp add: field_simps)
  then have eq: "\<lfloor>(endV - (v + i)) / i\<rfloor> = \<lfloor>(endV - v) / i\<rfloor> - 1"
    by simp
  have "0 \<le> (endV - v) / i" using le ipos by simp
  then have "0 \<le> \<lfloor>(endV - v) / i\<rfloor>" by simp
  with eq have "nat (\<lfloor>(endV - (v + i)) / i\<rfloor> + 1) < nat (\<lfloor>(endV - v) / i\<rfloor> + 1)"
    by simp
  then show "((tempUnit, v + (if tempUnit = F then 5 else 2), endV), tempUnit, v, endV)
      \<in> measure (\<lambda>(u, v, e). nat (\<lfloor>(e - v) / (if u = F then 5 else 2)\<rfloor> + 1))"
    by (simp add: i_def)
qed

function dewpointLoop :: "TempUnit \<Rightarrow> real \<Rightarrow> real \<Rightarrow> real list" where
  "dewpointLoop tempUnit v endV =
     (if v \<le> endV then
        (if v \<ge> (if tempUnit = F then 45 else 8) then [v] else [])
          @ dewpointLoop tempUnit (v + (if tempUnit = F then 5 else 2)) endV
      else [])"
  by pat_completeness auto
termination
proof (relation "measure (\<lambda>(u, v, e). nat (\<lfloor>(e - v) / (if u = F then 5 else 2)\<rfloor> + 1))")
  show "wf (measure (\<lambda>(u, v, e). nat (\<lfloor>(e - v) / (if u = F then 5 else 2)\<rfloor> + 1)))"
    by simp
next
  fix tempUnit :: TempUnit and v endV :: real
  assume le: "v \<le> endV"
  define i :: real where "i = (if tempUnit = F then 5 else 2)"
  have ipos: "0 < i" by (simp add: i_def)
  have "(endV - (v + i)) / i = (endV - v) / i - 1"
    using ipos by (simp add: field_simps)
  then have eq: "\<lfloor>(endV - (v + i)) / i\<rfloor> = \<lfloor>(endV - v) / i\<rfloor> - 1"
    by simp
  have "0 \<le> (endV - v) / i" using le ipos by simp
  then have "0 \<le> \<lfloor>(endV - v) / i\<rfloor>" by simp
  with eq have "nat (\<lfloor>(endV - (v + i)) / i\<rfloor> + 1) < nat (\<lfloor>(endV - v) / i\<rfloor> + 1)"
    by simp
  then show "((tempUnit, v + (if tempUnit = F then 5 else 2), endV), tempUnit, v, endV)
      \<in> measure (\<lambda>(u, v, e). nat (\<lfloor>(e - v) / (if u = F then 5 else 2)\<rfloor> + 1))"
    by (simp add: i_def)
qed

declare tempLoop.simps [simp del] dewpointLoop.simps [simp del]

text \<open>The level list of a field from the finite minimum and maximum of its grid.\<close>

definition buildLevels :: "AnalysisOverlay \<Rightarrow> TempUnit \<Rightarrow> real \<Rightarrow> real \<Rightarrow> real list" where
  "buildLevels mode tempUnit minV maxV =
     (case mode of
        Temp \<Rightarrow>
          let interval = (if tempUnit = F then 5 else 2);
              start = of_int \<lfloor>minV / interval\<rfloor> * interval;
              endV = of_int \<lceil>maxV / interval\<rceil> * interval
          in tempLoop tempUnit start endV
      | Dewpoint \<Rightarrow>
          let dpStep = (if tempUnit = F then 5 else 2);
              start = of_int \<lfloor>minV / dpStep\<rfloor> * dpStep;
              endV = of_int \<lceil>maxV / dpStep\<rceil> * dpStep
          in dewpointLoop tempUnit start endV
      | Slp \<Rightarrow>
          let base = 1000;
              stepMb = 4;
              kStart = \<lfloor>(minV - base) / stepMb\<rfloor>;
              kEnd = \<lceil>(maxV - base) / stepMb\<rceil>
          in map (\<lambda>k. base + of_int k * stepMb) [kStart..kEnd]
      | Wind \<Rightarrow> [])"







section \<open>Contour labels: \<^verbatim>\<open>labelContours\<close>\<close>

text \<open>\<^verbatim>\<open>Math.hypot\<close> and \<^verbatim>\<open>Math.atan2\<close> on finite numbers (signed zeros are not modelled).\<close>

definition hypot :: "real \<Rightarrow> real \<Rightarrow> real" where
  "hypot u v = sqrt (u * u + v * v)"

definition atan2 :: "real \<Rightarrow> real \<Rightarrow> real" where
  "atan2 dy dx =
     (if dx > 0 then arctan (dy / dx)
      else if dx < 0 then (if dy \<ge> 0 then arctan (dy / dx) + pi else arctan (dy / dx) - pi)
      else if dy > 0 then pi / 2
      else if dy < 0 then - (pi / 2)
      else 0)"

record Candidate =
  a :: Pt
  b :: Pt
  len :: real

datatype LabelMode = LTemp | LDewpoint | LSlp

text \<open>The loop that builds the candidates, with \<^verbatim>\<open>minLen = 30\<close>.\<close>

definition labelCandidates :: "Pt list list \<Rightarrow> Candidate list" where
  "labelCandidates segments =
     fold (\<lambda>seg candidates.
             if length seg < 2 then candidates
             else
               let p = seg ! 0;
                   q = seg ! (length seg - 1);
                   l = hypot (x q - x p) (y q - y p)
               in if l \<ge> 30 then candidates @ [\<lparr>a = p, b = q, len = l\<rparr>] else candidates)
          segments []"

text \<open>\<^verbatim>\<open>candidates.sort((a, b) => b.len - a.len)\<close>: a stable sort, longest first.\<close>

definition sortCandidates :: "Candidate list \<Rightarrow> Candidate list" where
  "sortCandidates candidates = sort_key (\<lambda>c. - len c) candidates"

text \<open>The rotation of a label: the chord angle, turned by half a turn when it is beyond a
  quarter turn.\<close>

definition labelAngle :: "Candidate \<Rightarrow> real" where
  "labelAngle cand =
     (let dx = x (b cand) - x (a cand);
          dy = y (b cand) - y (a cand);
          angle = atan2 dy dx
      in if angle > pi / 2 then angle - pi
         else if angle < - (pi / 2) then angle + pi
         else angle)"

text \<open>The body of the labelling loop for one candidate.\<close>

definition drawLabel :: "labelText \<Rightarrow> string \<Rightarrow> Candidate \<Rightarrow> ctx \<Rightarrow> ctx" where
  "drawLabel label labelColor cand c =
     (let mx = (x (a cand) + x (b cand)) / 2;
          my = (y (a cand) + y (b cand)) / 2;
          angle = labelAngle cand;
          c = save c;
          c = emit [Translate mx my, Rotate angle] c;
          c = setLineWidth 4 c;
          c = emit [SetStrokeStyle ''rgba(255,255,255,0.9)'', StrokeText label 0 0,
                    SetFillStyle labelColor, FillText label 0 0] c
      in restore c)"

text \<open>The candidates the labelling loop visits: indices below the number of candidates and
  below \<^verbatim>\<open>maxLabels = 5\<close>, in the sorted list.\<close>

definition labelledCandidates :: "Pt list list \<Rightarrow> Candidate list" where
  "labelledCandidates segments =
     (let candidates = sortCandidates (labelCandidates segments)
      in map (\<lambda>i. candidates ! i) [0..<min (length candidates) 5])"

text \<open>The colour and the text of the labels of a level (the block "Color/text by mode").\<close>

definition labelStyle ::
  "real \<Rightarrow> LabelMode \<Rightarrow> TempUnit \<Rightarrow> real option \<Rightarrow> string \<times> labelText" where
  "labelStyle level mode tempUnit optFreezingLevel =
     (let freezingLevel = (case optFreezingLevel of
                             Some f \<Rightarrow> f
                           | None \<Rightarrow> if tempUnit = F then 32 else 0)
      in case mode of
           LTemp \<Rightarrow>
             let belowFreezing = (level < freezingLevel);
                 isFreezing = (\<bar>level - freezingLevel\<bar> < 1 / 10 ^ 6)
             in (if isFreezing then ''#111827''
                 else if belowFreezing then ''#2563eb'' else ''#dc2626'',
                 DegreeText (js_round level) tempUnit)
         | LDewpoint \<Rightarrow> (''#14532d'', DegreeText (js_round level) tempUnit)
         | LSlp \<Rightarrow> (''#111827'', PlainText (js_round level)))"

definition labelContours ::
  "ctx \<Rightarrow> Pt list list \<Rightarrow> real \<Rightarrow> LabelMode \<Rightarrow> TempUnit \<Rightarrow> real option \<Rightarrow> ctx" where
  "labelContours c segments level mode tempUnit optFreezingLevel =
     (case labelStyle level mode tempUnit optFreezingLevel of (labelColor, label) \<Rightarrow>
        let c = save c;
            c = emit [SetGlobalAlpha 1, SetCompositeOp ''source-over'', SetLineDash [],
                      SetFont ''bold 14px system-ui, sans-serif'', SetTextAlign ''center'',
                      SetTextBaseline ''middle''] c
        in if length (labelCandidates segments) = 0 then restore c
           else restore (fold (drawLabel label labelColor) (labelledCandidates segments) c))"

text \<open>The calls one label makes, and the chord of a segment.\<close>

definition labelCalls :: "labelText \<Rightarrow> string \<Rightarrow> Candidate \<Rightarrow> prim list" where
  "labelCalls label labelColor cand =
     [Save,
      Translate ((x (a cand) + x (b cand)) / 2) ((y (a cand) + y (b cand)) / 2),
      Rotate (labelAngle cand),
      SetLineWidth 4, SetStrokeStyle ''rgba(255,255,255,0.9)'', StrokeText label 0 0,
      SetFillStyle labelColor, FillText label 0 0,
      Restore]"

definition chord :: "Pt list \<Rightarrow> real" where
  "chord seg = hypot (x (last seg) - x (hd seg)) (y (last seg) - y (hd seg))"

definition candidateOf :: "Pt list \<Rightarrow> Candidate" where
  "candidateOf seg = \<lparr>a = hd seg, b = last seg, len = chord seg\<rparr>"

section \<open>Theorems\<close>

subsection \<open>Marching squares\<close>

lemma cornerCode_uniform:
  "uniformCell v0 v1 v2 v3 level \<Longrightarrow>
     cornerCode v0 v1 v2 v3 level = 0 \<or> cornerCode v0 v1 v2 v3 level = 15"
  by (auto simp: uniformCell_def cornerCode_def)

text \<open>
  C1. The cell with corners \<open>v0 = 30\<close> (top-left), \<open>v1 = 40\<close> (top-right), \<open>v2 = 50\<close>
  (bottom-right), \<open>v3 = 20\<close> (bottom-left), stored row-major as \<open>[30, 40, 20, 50]\<close>, at level
  35 with origin \<open>(0, 0)\<close> and step 10: the extractor returns exactly one segment, from
  \<open>(5, 0)\<close> to \<open>(5, 10)\<close>.
\<close>

theorem C1_authoritative_example:
  "contoursForLevel [Fin 30, Fin 40, Fin 20, Fin 50] 2 2 10 35
     = [[\<lparr>x = 5, y = 0\<rparr>, \<lparr>x = 5, y = 10\<rparr>]]"
  by (simp add: contoursForLevel_def cellSegments_def gridRead_def idx_def isFinite_def
      cornerCode_def segmentsOfCode_def orElse_def interp_def)

lemma inner_fold_set:
  "set (fold (\<lambda>i lines. lines @ f i) is acc) = set acc \<union> (\<Union>i\<in>set is. set (f i))"
  by (induction "is" arbitrary: acc) auto

lemma outer_fold_set:
  "set (fold (\<lambda>j lines. fold (\<lambda>i lines. lines @ f i j) is lines) js acc)
     = set acc \<union> (\<Union>j\<in>set js. \<Union>i\<in>set is. set (f i j))"
  by (induction js arbitrary: acc) (auto simp: inner_fold_set)

lemma contoursForLevel_set:
  "set (contoursForLevel g nx ny step level)
     = (\<Union>j\<in>{0..<ny - 1}. \<Union>i\<in>{0..<nx - 1}. set (cellSegments g nx step level i j))"
  by (simp add: contoursForLevel_def outer_fold_set)

lemma cellSegments_skipped:
  assumes "\<not> cellFinite g nx i j \<or> cellUniform g nx level i j"
  shows "cellSegments g nx step level i j = []"
proof (cases "cellFinite g nx i j")
  case False
  then show ?thesis
    by (auto simp: cellSegments_def cellFinite_def Let_def)
next
  case True
  with assms have "cellUniform g nx level i j" by simp
  then have "cornerCode (theNum (gridRead g (idx nx i j))) (theNum (gridRead g (idx nx (i + 1) j)))
      (theNum (gridRead g (idx nx (i + 1) (j + 1)))) (theNum (gridRead g (idx nx i (j + 1)))) level
      \<in> {0, 15}"
    using cornerCode_uniform by (auto simp: cellUniform_def)
  then show ?thesis
    by (auto simp: cellSegments_def Let_def)
qed

text \<open>
  C3. For every grid, level and cell: a cell with a non-finite corner, and a cell whose four
  corners are all \<open>\<ge> level\<close> or all \<open>< level\<close>, contributes no segment; and every segment the
  extractor returns was produced by a cell \<open>(i, j)\<close> of the \<open>(nx - 1) \<times> (ny - 1)\<close> cells that
  is fully populated and not uniform.
\<close>

theorem C3_no_segment_from_uniform_or_missing_cell:
  "(\<not> cellFinite g nx i j \<or> cellUniform g nx level i j
       \<longrightarrow> cellSegments g nx step level i j = []) \<and>
   (seg \<in> set (contoursForLevel g nx ny step level)
       \<longrightarrow> (\<exists>i' j'. i' < nx - 1 \<and> j' < ny - 1 \<and>
                    seg \<in> set (cellSegments g nx step level i' j') \<and>
                    cellFinite g nx i' j' \<and> \<not> cellUniform g nx level i' j'))"
proof (intro conjI impI)
  assume "\<not> cellFinite g nx i j \<or> cellUniform g nx level i j"
  then show "cellSegments g nx step level i j = []"
    by (rule cellSegments_skipped)
next
  assume "seg \<in> set (contoursForLevel g nx ny step level)"
  then obtain i' j' where ij: "i' < nx - 1" "j' < ny - 1"
      and seg: "seg \<in> set (cellSegments g nx step level i' j')"
    by (auto simp: contoursForLevel_set)
  from seg have "cellSegments g nx step level i' j' \<noteq> []" by auto
  then have "\<not> (\<not> cellFinite g nx i' j' \<or> cellUniform g nx level i' j')"
    using cellSegments_skipped by blast
  with ij seg show "\<exists>i' j'. i' < nx - 1 \<and> j' < ny - 1 \<and>
      seg \<in> set (cellSegments g nx step level i' j') \<and>
      cellFinite g nx i' j' \<and> \<not> cellUniform g nx level i' j'"
    by blast
qed

theorem C3_witness:
  "cellSegments [Fin 40, NaN, Fin 20, Fin 50] 2 10 35 0 0 = [] \<and>
   (\<exists>i' j'. i' < (2::nat) - 1 \<and> j' < (2::nat) - 1 \<and>
        [\<lparr>x = 5, y = 0\<rparr>, \<lparr>x = 5, y = 10\<rparr>]
          \<in> set (cellSegments [Fin 30, Fin 40, Fin 20, Fin 50] 2 10 35 i' j') \<and>
        cellFinite [Fin 30, Fin 40, Fin 20, Fin 50] 2 i' j' \<and>
        \<not> cellUniform [Fin 30, Fin 40, Fin 20, Fin 50] 2 35 i' j')"
proof -
  have a: "\<not> cellFinite [Fin 40, NaN, Fin 20, Fin 50] 2 0 0"
    by (simp add: cellFinite_def gridRead_def idx_def isFinite_def)
  have b: "[\<lparr>x = 5, y = 0\<rparr>, \<lparr>x = 5, y = 10\<rparr>]
      \<in> set (contoursForLevel [Fin 30, Fin 40, Fin 20, Fin 50] 2 2 10 35)"
    by (simp add: contoursForLevel_def cellSegments_def gridRead_def idx_def isFinite_def
        cornerCode_def segmentsOfCode_def orElse_def interp_def)
  show ?thesis
    using a b
      C3_no_segment_from_uniform_or_missing_cell
        [of "[Fin 40, NaN, Fin 20, Fin 50]" 2 0 0 35 10 "[\<lparr>x = 5, y = 0\<rparr>, \<lparr>x = 5, y = 10\<rparr>]" 2]
      C3_no_segment_from_uniform_or_missing_cell
        [of "[Fin 30, Fin 40, Fin 20, Fin 50]" 2 0 0 35 10 "[\<lparr>x = 5, y = 0\<rparr>, \<lparr>x = 5, y = 10\<rparr>]" 2]
    by blast
qed

text \<open>
  C4. The values 10, 20, 20, 10 taken in the extractor's corner order (top-left, top-right,
  bottom-right, bottom-left) are stored row-major as \<open>[10, 20, 10, 20]\<close>. At level 15 the two
  right-hand corners are at or above the level and the two left-hand ones below: code 6, and
  the extractor returns one segment, not two.
\<close>

theorem C4_corner_order_counterexample:
  "length (contoursForLevel [Fin 10, Fin 20, Fin 10, Fin 20] 2 2 24 15) = 1"
  by (simp add: contoursForLevel_def cellSegments_def gridRead_def idx_def isFinite_def
      cornerCode_def segmentsOfCode_def orElse_def interp_def)

text \<open>
  C4, amended. The values 10, 20, 20, 10 taken in the grid's row-major storage order
  (top-left, top-right, bottom-left, bottom-right) put 20 on one diagonal and 10 on the other:
  a saddle, code 10. At level 15 the extractor returns exactly the two segments of the fixed
  saddle policy, for every step.
\<close>

theorem C4_saddle_two_segments:
  "contoursForLevel [Fin 10, Fin 20, Fin 20, Fin 10] 2 2 step 15
     = [[\<lparr>x = step / 2, y = 0\<rparr>, \<lparr>x = 0, y = step / 2\<rparr>],
        [\<lparr>x = step, y = step / 2\<rparr>, \<lparr>x = step / 2, y = step\<rparr>]] \<and>
   length (contoursForLevel [Fin 10, Fin 20, Fin 20, Fin 10] 2 2 step 15) = 2"
  by (simp add: contoursForLevel_def cellSegments_def gridRead_def idx_def isFinite_def
      cornerCode_def segmentsOfCode_def orElse_def interp_def)

subsection \<open>Wind barbs\<close>

text \<open>
  C9. A speed of 47 kt rounds to 45 kt and splits into no flag, four full barbs and one half
  barb; 53 kt rounds to 55 kt and splits into one flag, no full barb and one half barb.
\<close>

theorem C9_barb_decomposition:
  "roundedSpeed 47 = 45 \<and> barbCounts 47 = (0, 4, 1) \<and>
   roundedSpeed 53 = 55 \<and> barbCounts 53 = (1, 0, 1)"
  by (simp add: barbCounts_def roundedSpeed_def js_round_def)

text \<open>
  C10. With a null direction or a null speed \<^verbatim>\<open>drawWindBarb\<close> leaves the context as it
  found it. With both present and a speed below 2 kt, a negative speed included, all it draws
  is the calm circle of radius 5 at the station, stroked at line width 1, and the line width is
  put back: no staff, no barb.
\<close>

theorem C10_null_is_noop_and_calm_circle:
  "(dirDeg = None \<or> spdKt = None \<longrightarrow> drawWindBarb c sx sy r dirDeg spdKt = c) \<and>
   (s < 2 \<longrightarrow>
      drawWindBarb c sx sy r (Some d) (Some s)
        = c\<lparr>calls := calls c @ [SetLineWidth 1, BeginPath, Arc sx sy 5 0 (pi * 2), Stroke,
                                SetLineWidth (lineWidth c)]\<rparr>)"
  by (auto simp: drawWindBarb_def setLineWidth_def emit_def Let_def)

theorem C10_witness:
  "drawWindBarb \<lparr>lineWidth = 3 / 2, saved = [], calls = []\<rparr> 100 80 6 None (Some 10)
     = \<lparr>lineWidth = 3 / 2, saved = [], calls = []\<rparr> \<and>
   drawWindBarb \<lparr>lineWidth = 3 / 2, saved = [], calls = []\<rparr> 100 80 6 (Some 270) (Some (- 3))
     = \<lparr>lineWidth = 3 / 2, saved = [],
        calls = [SetLineWidth 1, BeginPath, Arc 100 80 5 0 (pi * 2), Stroke, SetLineWidth (3 / 2)]\<rparr>"
  using C10_null_is_noop_and_calm_circle
          [of None "Some 10" "\<lparr>lineWidth = 3 / 2, saved = [], calls = []\<rparr>" 100 80 6 "- 3" 270]
  by simp

subsection \<open>Decluttering and station plots\<close>

lemma thinLoop_spec:
  assumes "\<forall>s\<in>set stations. project (lon s) (lat s) \<noteq> None"
  shows "\<exists>res. thinLoop project cell stations seen out = Inr (out @ res) \<and>
           subseq res stations \<and>
           distinct (map (bucketKey project cell) res) \<and>
           (\<forall>s\<in>set res. the (bucketKey project cell s) \<notin> seen) \<and>
           bucketKey project cell ` set res
             = bucketKey project cell ` set stations - Some ` seen \<and>
           (\<forall>s\<in>set res.
              find (\<lambda>t. bucketKey project cell t = bucketKey project cell s) stations = Some s)"
  using assms
proof (induction stations arbitrary: seen out)
  case Nil
  then show ?case by simp
next
  case (Cons s stations)
  then obtain p where p: "project (lon s) (lat s) = Some p" by auto
  let ?k = "keyOf p cell"
  have ks: "bucketKey project cell s = Some ?k" by (simp add: bucketKey_def p)
  from Cons.prems have rest: "\<forall>s\<in>set stations. project (lon s) (lat s) \<noteq> None" by simp
  show ?case
  proof (cases "?k \<in> seen")
    case True
    from Cons.IH[OF rest, of seen out] obtain res where
      r: "thinLoop project cell stations seen out = Inr (out @ res)"
         "subseq res stations" "distinct (map (bucketKey project cell) res)"
         "\<forall>s\<in>set res. the (bucketKey project cell s) \<notin> seen"
         "bucketKey project cell ` set res = bucketKey project cell ` set stations - Some ` seen"
         "\<forall>s\<in>set res. find (\<lambda>t. bucketKey project cell t = bucketKey project cell s) stations = Some s"
      by blast
    have "thinLoop project cell (s # stations) seen out = Inr (out @ res)"
      using True r(1) by (simp add: p)
    moreover have "subseq res (s # stations)" using r(2) by (rule list_emb_Cons)
    moreover have "bucketKey project cell ` set res
        = bucketKey project cell ` set (s # stations) - Some ` seen"
      using r(5) True ks by auto
    moreover have "\<forall>t\<in>set res.
        find (\<lambda>u. bucketKey project cell u = bucketKey project cell t) (s # stations) = Some t"
    proof
      fix t assume t: "t \<in> set res"
      with r(4) have "the (bucketKey project cell t) \<notin> seen" by blast
      with True ks have "bucketKey project cell s \<noteq> bucketKey project cell t"
        by (metis option.sel)
      with r(6) t show "find (\<lambda>u. bucketKey project cell u = bucketKey project cell t) (s # stations) = Some t"
        by simp
    qed
    ultimately show ?thesis using r(3,4) by blast
  next
    case False
    from Cons.IH[OF rest, of "insert ?k seen" "out @ [s]"] obtain res where
      r: "thinLoop project cell stations (insert ?k seen) (out @ [s]) = Inr ((out @ [s]) @ res)"
         "subseq res stations" "distinct (map (bucketKey project cell) res)"
         "\<forall>s\<in>set res. the (bucketKey project cell s) \<notin> insert ?k seen"
         "bucketKey project cell ` set res
            = bucketKey project cell ` set stations - Some ` insert ?k seen"
         "\<forall>s\<in>set res. find (\<lambda>t. bucketKey project cell t = bucketKey project cell s) stations = Some s"
      by blast
    have nk: "\<forall>t\<in>set res. bucketKey project cell t \<noteq> Some ?k"
      using r(5) by auto
    have "thinLoop project cell (s # stations) seen out = Inr (out @ (s # res))"
      using False r(1) by (simp add: p)
    moreover have "subseq (s # res) (s # stations)" using r(2) by simp
    moreover have "distinct (map (bucketKey project cell) (s # res))"
      using r(3) nk ks by auto
    moreover have "\<forall>t\<in>set (s # res). the (bucketKey project cell t) \<notin> seen"
      using r(4) False ks by auto
    moreover have "bucketKey project cell ` set (s # res)
        = bucketKey project cell ` set (s # stations) - Some ` seen"
      using r(5) False ks by auto
    moreover have "\<forall>t\<in>set (s # res).
        find (\<lambda>u. bucketKey project cell u = bucketKey project cell t) (s # stations) = Some t"
      using r(6) nk ks by auto
    ultimately show ?thesis by blast
  qed
qed

lemma thinLoop_fails:
  "s \<in> set stations \<Longrightarrow> project (lon s) (lat s) = None \<Longrightarrow>
     thinLoop project cell stations seen out = Inl ProjectionError"
  by (induction stations arbitrary: seen out) (auto split: option.splits simp: Let_def)

lemma drawStationPlots_skips:
  "drawStationPlots c project w h z u stations
     = drawStationPlots c project w h z u (filter (\<lambda>s. project (lon s) (lat s) \<noteq> None) stations)"
  unfolding drawStationPlots_def
  by (induction stations arbitrary: c) (auto split: option.splits)

text \<open>
  C6. When every projection succeeds, \<^verbatim>\<open>thinByPixelGrid\<close> returns, for every cell size, an
  order-preserving subsequence of its input with pairwise distinct bucket keys, in which each
  member is the first observation of the input that falls in its bucket. \<^verbatim>\<open>declutteredObs\<close>
  returns the input unchanged when there is no map and when the zoom is 10 or more; below zoom
  10 it is \<^verbatim>\<open>thinByPixelGrid\<close> at a cell size of at least 6.
\<close>

theorem C6_declutter_first_per_bucket:
  assumes "\<forall>s\<in>set obs. project (lon s) (lat s) \<noteq> None"
  shows "(\<exists>out. thinByPixelGrid obs project cell = Inr out \<and>
            subseq out obs \<and>
            distinct (map (bucketKey project cell) out) \<and>
            (\<forall>s\<in>set out.
               find (\<lambda>t. bucketKey project cell t = bucketKey project cell s) obs = Some s)) \<and>
         declutteredObs None zoom densityMode obs = Inr obs \<and>
         (z \<ge> 10 \<longrightarrow> declutteredObs (Some project) (Some z) densityMode obs = Inr obs) \<and>
         (\<exists>cell'. cell' \<ge> 6 \<and>
            (z < 10 \<longrightarrow> declutteredObs (Some project) (Some z) densityMode obs
                            = thinByPixelGrid obs project cell'))"
proof (intro conjI)
  from thinLoop_spec[OF assms, of cell "{}" "[]"]
  show "\<exists>out. thinByPixelGrid obs project cell = Inr out \<and>
            subseq out obs \<and>
            distinct (map (bucketKey project cell) out) \<and>
            (\<forall>s\<in>set out.
               find (\<lambda>t. bucketKey project cell t = bucketKey project cell s) obs = Some s)"
    unfolding thinByPixelGrid_def by auto
next
  show "declutteredObs None zoom densityMode obs = Inr obs"
    by (simp add: declutteredObs_def)
next
  show "z \<ge> 10 \<longrightarrow> declutteredObs (Some project) (Some z) densityMode obs = Inr obs"
    by (simp add: declutteredObs_def)
next
  let ?base = "if z < 4 then 30 else if z < 6 then 22 else if z < 8 then 15 else (10::real)"
  let ?cell = "max 6 (real_of_int (js_round (?base * densityMultiplier densityMode)))"
  have "z < 10 \<longrightarrow> declutteredObs (Some project) (Some z) densityMode obs
                            = thinByPixelGrid obs project ?cell"
    by (simp add: declutteredObs_def Let_def)
  moreover have "?cell \<ge> 6" by simp
  ultimately show "\<exists>cell'. cell' \<ge> 6 \<and>
            (z < 10 \<longrightarrow> declutteredObs (Some project) (Some z) densityMode obs
                            = thinByPixelGrid obs project cell')"
    by blast
qed

theorem C6_witness:
  "exampleProject 0 0 \<noteq> None \<and> exampleProject 1 (- 1) \<noteq> None \<and>
   exampleProject 50 20 \<noteq> None \<and>
   thinByPixelGrid [exampleObs ''A'' 0 0, exampleObs ''B'' 1 (- 1), exampleObs ''C'' 50 20]
       exampleProject 12 = Inr [exampleObs ''A'' 0 0, exampleObs ''C'' 50 20] \<and>
   (\<exists>out. thinByPixelGrid [exampleObs ''A'' 0 0, exampleObs ''B'' 1 (- 1), exampleObs ''C'' 50 20]
             exampleProject 12 = Inr out \<and>
          subseq out [exampleObs ''A'' 0 0, exampleObs ''B'' 1 (- 1), exampleObs ''C'' 50 20] \<and>
          distinct (map (bucketKey exampleProject 12) out) \<and>
          (\<forall>s\<in>set out.
             find (\<lambda>t. bucketKey exampleProject 12 t = bucketKey exampleProject 12 s)
               [exampleObs ''A'' 0 0, exampleObs ''B'' 1 (- 1), exampleObs ''C'' 50 20] = Some s)) \<and>
   declutteredObs (Some exampleProject) (Some 11) Medium
       [exampleObs ''A'' 0 0, exampleObs ''B'' 1 (- 1), exampleObs ''C'' 50 20]
     = Inr [exampleObs ''A'' 0 0, exampleObs ''B'' 1 (- 1), exampleObs ''C'' 50 20]"
proof -
  let ?obs = "[exampleObs ''A'' 0 0, exampleObs ''B'' 1 (- 1), exampleObs ''C'' 50 20]"
  have h: "\<forall>s\<in>set ?obs. exampleProject (lon s) (lat s) \<noteq> None"
    by (simp add: exampleObs_def exampleProject_def)
  have v: "thinByPixelGrid ?obs exampleProject 12
      = Inr [exampleObs ''A'' 0 0, exampleObs ''C'' 50 20]"
    by (simp add: thinByPixelGrid_def exampleObs_def exampleProject_def keyOf_def floorDiv_def)
  note t = C6_declutter_first_per_bucket[OF h, of 12 None Medium 11]
  from t have a: "\<exists>out. thinByPixelGrid ?obs exampleProject 12 = Inr out \<and>
          subseq out ?obs \<and>
          distinct (map (bucketKey exampleProject 12) out) \<and>
          (\<forall>s\<in>set out.
             find (\<lambda>t. bucketKey exampleProject 12 t = bucketKey exampleProject 12 s) ?obs = Some s)"
    by (rule conjunct1)
  from t have "(11::real) \<ge> 10 \<longrightarrow>
      declutteredObs (Some exampleProject) (Some 11) Medium ?obs = Inr ?obs"
    by blast
  then have b: "declutteredObs (Some exampleProject) (Some 11) Medium ?obs = Inr ?obs"
    by simp
  have h': "exampleProject 0 0 \<noteq> None \<and> exampleProject 1 (- 1) \<noteq> None \<and>
      exampleProject 50 20 \<noteq> None"
    by (simp add: exampleProject_def)
  from h' v a b show ?thesis by blast
qed

text \<open>
  C7, at a batch whose second observation has latitude 95, which the projector rejects:
  \<^verbatim>\<open>thinByPixelGrid\<close> has no handler around the projection, so the whole call fails and no
  observation is kept; the station loop of \<^verbatim>\<open>drawStationPlots\<close> on the same batch draws exactly
  what it draws for the two valid observations.
\<close>

theorem C7_thinning_aborts_on_one_bad_projection:
  "thinByPixelGrid [exampleObs ''A'' 0 0, exampleObs ''BAD'' 0 95, exampleObs ''C'' 50 20]
       exampleProject 12 = Inl ProjectionError \<and>
   drawStationPlots c exampleProject 1440 720 5 tempUnit
       [exampleObs ''A'' 0 0, exampleObs ''BAD'' 0 95, exampleObs ''C'' 50 20]
     = drawStationPlots c exampleProject 1440 720 5 tempUnit
         [exampleObs ''A'' 0 0, exampleObs ''C'' 50 20]"
proof
  show "thinByPixelGrid [exampleObs ''A'' 0 0, exampleObs ''BAD'' 0 95, exampleObs ''C'' 50 20]
       exampleProject 12 = Inl ProjectionError"
    by (simp add: thinByPixelGrid_def exampleObs_def exampleProject_def keyOf_def floorDiv_def)
next
  show "drawStationPlots c exampleProject 1440 720 5 tempUnit
       [exampleObs ''A'' 0 0, exampleObs ''BAD'' 0 95, exampleObs ''C'' 50 20]
     = drawStationPlots c exampleProject 1440 720 5 tempUnit
         [exampleObs ''A'' 0 0, exampleObs ''C'' 50 20]"
    by (subst drawStationPlots_skips) (simp add: exampleObs_def exampleProject_def)
qed

subsection \<open>Level selection\<close>

lemma isFinite_iff: "isFinite v \<longleftrightarrow> (\<exists>r. v = Fin r)"
  by (cases v) (simp_all add: isFinite_def)

lemma minMax_fold_some:
  "\<exists>a' b'. fold minMaxStep g (Some lo, Some hi) = (Some a', Some b') \<and>
      (a' = lo \<or> Fin a' \<in> set g) \<and> a' \<le> lo \<and> (\<forall>r. Fin r \<in> set g \<longrightarrow> a' \<le> r) \<and>
      (b' = hi \<or> Fin b' \<in> set g) \<and> hi \<le> b' \<and> (\<forall>r. Fin r \<in> set g \<longrightarrow> r \<le> b')"
proof (induction g arbitrary: lo hi)
  case Nil
  then show ?case by simp
next
  case (Cons v g)
  show ?case
  proof (cases "isFinite v")
    case False
    then have "\<forall>r. v \<noteq> Fin r" by (simp add: isFinite_iff)
    with False Cons.IH[of lo hi] show ?thesis
      by (auto simp: minMaxStep_def)
  next
    case True
    then obtain r0 where v: "v = Fin r0" by (auto simp: isFinite_iff)
    let ?a = "if r0 < lo then r0 else lo"
    let ?b = "if r0 > hi then r0 else hi"
    have st: "fold minMaxStep (v # g) (Some lo, Some hi) = fold minMaxStep g (Some ?a, Some ?b)"
      by (simp add: minMaxStep_def v isFinite_def)
    from Cons.IH[of ?a ?b] obtain a' b' where
      r: "fold minMaxStep g (Some ?a, Some ?b) = (Some a', Some b')"
         "a' = ?a \<or> Fin a' \<in> set g" "a' \<le> ?a" "\<forall>r. Fin r \<in> set g \<longrightarrow> a' \<le> r"
         "b' = ?b \<or> Fin b' \<in> set g" "?b \<le> b'" "\<forall>r. Fin r \<in> set g \<longrightarrow> r \<le> b'"
      by blast
    have "a' = lo \<or> Fin a' \<in> set (v # g)" using r(2) v by (auto split: if_splits)
    moreover have "a' \<le> lo" using r(3) by (auto split: if_splits)
    moreover have "\<forall>r. Fin r \<in> set (v # g) \<longrightarrow> a' \<le> r"
      using r(3,4) v by (auto split: if_splits)
    moreover have "b' = hi \<or> Fin b' \<in> set (v # g)" using r(5) v by (auto split: if_splits)
    moreover have "hi \<le> b'" using r(6) by (auto split: if_splits)
    moreover have "\<forall>r. Fin r \<in> set (v # g) \<longrightarrow> r \<le> b'"
      using r(6,7) v by (auto split: if_splits)
    ultimately show ?thesis using st r(1) by simp
  qed
qed

lemma minMax_fold_none:
  "(fold minMaxStep g (None, None) = (None, None) \<and> (\<forall>r. Fin r \<notin> set g)) \<or>
   (\<exists>a b. fold minMaxStep g (None, None) = (Some a, Some b) \<and>
       Fin a \<in> set g \<and> Fin b \<in> set g \<and> (\<forall>r. Fin r \<in> set g \<longrightarrow> a \<le> r \<and> r \<le> b))"
proof (induction g)
  case Nil
  then show ?case by simp
next
  case (Cons v g)
  show ?case
  proof (cases "isFinite v")
    case False
    then have "\<forall>r. v \<noteq> Fin r" by (simp add: isFinite_iff)
    with False Cons.IH show ?thesis
      by (auto simp: minMaxStep_def)
  next
    case True
    then obtain r0 where v: "v = Fin r0" by (auto simp: isFinite_iff)
    have st: "fold minMaxStep (v # g) (None, None) = fold minMaxStep g (Some r0, Some r0)"
      by (simp add: minMaxStep_def v isFinite_def)
    from minMax_fold_some[of g r0 r0] obtain a' b' where
      r: "fold minMaxStep g (Some r0, Some r0) = (Some a', Some b')"
         "a' = r0 \<or> Fin a' \<in> set g" "a' \<le> r0" "\<forall>r. Fin r \<in> set g \<longrightarrow> a' \<le> r"
         "b' = r0 \<or> Fin b' \<in> set g" "r0 \<le> b'" "\<forall>r. Fin r \<in> set g \<longrightarrow> r \<le> b'"
      by blast
    have "Fin a' \<in> set (v # g)" using r(2) v by auto
    moreover have "Fin b' \<in> set (v # g)" using r(5) v by auto
    moreover have "\<forall>r. Fin r \<in> set (v # g) \<longrightarrow> a' \<le> r \<and> r \<le> b'"
      using r(3,4,6,7) v by auto
    ultimately show ?thesis using st r(1) by simp
  qed
qed

lemma gridMinMax_bounds:
  assumes "gridMinMax g = Some (lo, hi)"
  shows "Fin lo \<in> set g \<and> Fin hi \<in> set g \<and> (\<forall>r. Fin r \<in> set g \<longrightarrow> lo \<le> r \<and> r \<le> hi)"
  using assms minMax_fold_none[of g]
  by (auto simp: gridMinMax_def split: prod.splits option.splits)

lemma gridMinMax_None:
  "gridMinMax g = None \<longleftrightarrow> (\<forall>r. Fin r \<notin> set g)"
  using minMax_fold_none[of g]
  by (auto simp: gridMinMax_def split: prod.splits option.splits)

lemma tempLoop_last:
  assumes i: "i = (if u = F then 5 else 2)"
  shows "tempLoop u v (v + real n * i) \<noteq> [] \<and>
         hd (tempLoop u v (v + real n * i)) = v \<and>
         last (tempLoop u v (v + real n * i)) = v + real n * i"
proof (induction n arbitrary: v)
  case 0
  have ipos: "0 < i" by (simp add: i)
  have "tempLoop u (v + i) v = []"
    using ipos by (subst tempLoop.simps) simp
  then have "tempLoop u v v = [v]"
    by (subst tempLoop.simps) (simp add: i)
  then show ?case by simp
next
  case (Suc n)
  have ipos: "0 < i" by (simp add: i)
  have e: "v + real (Suc n) * i = (v + i) + real n * i" by (simp add: algebra_simps)
  have "v \<le> (v + i) + real n * i" using ipos by (simp add: add_nonneg_nonneg)
  then have "tempLoop u v ((v + i) + real n * i)
      = v # tempLoop u (v + i) ((v + i) + real n * i)"
    by (subst tempLoop.simps) (simp add: i)
  with Suc[of "v + i"] show ?case by (simp only: e) simp
qed

lemma dewpointLoop_filter:
  "dewpointLoop u v e = filter (\<lambda>l. l \<ge> (if u = F then 45 else 8)) (tempLoop u v e)"
proof (induction u v e rule: tempLoop.induct)
  case (1 tempUnit v endV)
  show ?case
  proof (cases "v \<le> endV")
    case True
    with 1 show ?thesis
      by (subst dewpointLoop.simps, subst tempLoop.simps) simp
  next
    case False
    then show ?thesis
      by (subst dewpointLoop.simps, subst tempLoop.simps) simp
  qed
qed

lemma tempLoop_bounds: "l \<in> set (tempLoop u v e) \<Longrightarrow> v \<le> l \<and> l \<le> e"
proof (induction u v e rule: tempLoop.induct)
  case (1 tempUnit v endV)
  show ?case
  proof (cases "v \<le> endV")
    case True
    from 1(2) True have "l = v \<or> l \<in> set (tempLoop tempUnit (v + (if tempUnit = F then 5 else 2)) endV)"
      by (subst (asm) tempLoop.simps) simp
    with 1(1)[OF True] True show ?thesis
      by (auto split: if_splits)
  next
    case False
    with 1(2) show ?thesis by (subst (asm) tempLoop.simps) simp
  qed
qed

lemma level_span:
  fixes i minV maxV :: real
  assumes "0 < i" "minV \<le> maxV"
  shows "\<exists>n. of_int \<lceil>maxV / i\<rceil> * i = of_int \<lfloor>minV / i\<rfloor> * i + real n * i"
proof -
  have "minV / i \<le> maxV / i" using assms by (simp add: divide_right_mono)
  then have "\<lfloor>minV / i\<rfloor> \<le> \<lceil>maxV / i\<rceil>"
    by (meson ceiling_mono floor_le_ceiling order_trans)
  then obtain n where n: "\<lceil>maxV / i\<rceil> = \<lfloor>minV / i\<rfloor> + int n"
    by (metis zle_iff_zadd)
  have "of_int \<lceil>maxV / i\<rceil> * i = of_int \<lfloor>minV / i\<rfloor> * i + real n * i"
    by (simp only: n) (simp add: algebra_simps)
  then show ?thesis by blast
qed

lemma start_le:
  fixes i minV :: real
  assumes "0 < i"
  shows "of_int \<lfloor>minV / i\<rfloor> * i \<le> minV"
  using assms of_int_floor_le[of "minV / i"] by (simp only: pos_le_divide_eq)

lemma end_ge:
  fixes i maxV :: real
  assumes "0 < i"
  shows "maxV \<le> of_int \<lceil>maxV / i\<rceil> * i"
  using assms le_of_int_ceiling[of "maxV / i"] by (simp only: pos_divide_le_eq)

lemma temp_levels_eq:
  "buildLevels Temp u minV maxV
     = tempLoop u (of_int \<lfloor>minV / (if u = F then 5 else 2)\<rfloor> * (if u = F then 5 else 2))
         (of_int \<lceil>maxV / (if u = F then 5 else 2)\<rceil> * (if u = F then 5 else 2))"
  by (simp add: buildLevels_def Let_def)

lemma temp_levels_bracket:
  assumes "minV \<le> maxV"
  shows "buildLevels Temp u minV maxV \<noteq> [] \<and>
         hd (buildLevels Temp u minV maxV) = of_int \<lfloor>minV / (if u = F then 5 else 2)\<rfloor>
              * (if u = F then 5 else 2) \<and>
         hd (buildLevels Temp u minV maxV) \<le> minV \<and>
         maxV \<le> last (buildLevels Temp u minV maxV) \<and>
         (\<forall>l\<in>set (buildLevels Temp u minV maxV). l \<le> last (buildLevels Temp u minV maxV))"
proof -
  define i :: real where "i = (if u = F then 5 else 2)"
  have ipos: "0 < i" by (simp add: i_def)
  define s where "s = of_int \<lfloor>minV / i\<rfloor> * i"
  define e where "e = of_int \<lceil>maxV / i\<rceil> * i"
  have bl: "buildLevels Temp u minV maxV = tempLoop u s e"
    unfolding s_def e_def i_def by (rule temp_levels_eq)
  from level_span[OF ipos assms] obtain n where n: "e = s + real n * i"
    unfolding s_def e_def by blast
  from tempLoop_last[OF i_def, of s n] have
    t: "tempLoop u s e \<noteq> []" "hd (tempLoop u s e) = s" "last (tempLoop u s e) = e"
    unfolding n by simp_all
  have b: "\<forall>l\<in>set (tempLoop u s e). l \<le> e"
    using tempLoop_bounds by blast
  have "s \<le> minV" unfolding s_def by (rule start_le[OF ipos])
  moreover have "maxV \<le> e" unfolding e_def by (rule end_ge[OF ipos])
  moreover have "s = of_int \<lfloor>minV / (if u = F then 5 else 2)\<rfloor> * (if u = F then 5 else 2)"
    unfolding s_def i_def ..
  ultimately show ?thesis using t b by (simp only: bl) simp
qed

lemma slp_levels_bracket:
  assumes "minV \<le> maxV"
  shows "buildLevels Slp u minV maxV \<noteq> [] \<and>
         hd (buildLevels Slp u minV maxV) \<le> minV \<and>
         maxV \<le> last (buildLevels Slp u minV maxV)"
proof -
  define ks where "ks = \<lfloor>(minV - 1000) / 4\<rfloor>"
  define ke where "ke = \<lceil>(maxV - 1000) / 4\<rceil>"
  have bl: "buildLevels Slp u minV maxV = map (\<lambda>k. 1000 + of_int k * 4) [ks..ke]"
    by (simp add: buildLevels_def Let_def ks_def ke_def)
  have "(minV - 1000) / 4 \<le> (maxV - 1000) / 4" using assms by simp
  then have le: "ks \<le> ke" unfolding ks_def ke_def
    by (meson ceiling_mono floor_le_ceiling order_trans)
  then have ne: "[ks..ke] \<noteq> []" by simp
  have h: "hd [ks..ke] = ks" using le by (simp add: upto_rec1)
  have l: "last [ks..ke] = ke" using le by (simp add: upto_rec2)
  have "of_int ks \<le> (minV - 1000) / 4" unfolding ks_def by (rule of_int_floor_le)
  then have a: "1000 + of_int ks * 4 \<le> minV" by simp
  have "(maxV - 1000) / 4 \<le> of_int ke" unfolding ke_def by (rule le_of_int_ceiling)
  then have b: "maxV \<le> 1000 + of_int ke * 4" by simp
  show ?thesis
    using ne h l a b by (simp only: bl) (simp add: hd_map last_map)
qed

lemma dewpoint_levels:
  "buildLevels Dewpoint u minV maxV
     = filter (\<lambda>l. l \<ge> (if u = F then 45 else 8)) (buildLevels Temp u minV maxV)"
  by (simp add: buildLevels_def Let_def dewpointLoop_filter)

lemma dewpoint_levels_props:
  assumes "minV \<le> maxV"
  shows "(\<forall>l\<in>set (buildLevels Dewpoint u minV maxV). (if u = F then 45 else 8) \<le> l) \<and>
         (buildLevels Dewpoint u minV maxV \<noteq> []
            \<longrightarrow> maxV \<le> Max (set (buildLevels Dewpoint u minV maxV))) \<and>
         ((if u = F then 45 else 8) \<le> minV
            \<longrightarrow> buildLevels Dewpoint u minV maxV \<noteq> [] \<and>
                 Min (set (buildLevels Dewpoint u minV maxV)) \<le> minV)"
proof -
  define thr :: real where "thr = (if u = F then 45 else 8)"
  define T where "T = buildLevels Temp u minV maxV"
  define D where "D = buildLevels Dewpoint u minV maxV"
  have D: "D = filter (\<lambda>l. l \<ge> thr) T"
    unfolding D_def T_def thr_def by (rule dewpoint_levels)
  from temp_levels_bracket[OF assms, of u]
  have T: "T \<noteq> []" "hd T \<le> minV" "maxV \<le> last T" "\<forall>l\<in>set T. l \<le> last T"
    and hdT: "hd T = of_int \<lfloor>minV / (if u = F then 5 else 2)\<rfloor> * (if u = F then 5 else 2)"
    unfolding T_def by simp_all
  have p1: "\<forall>l\<in>set D. thr \<le> l" by (simp add: D)
  have p2: "maxV \<le> Max (set D)" if ne: "D \<noteq> []"
  proof -
    from ne obtain l where l: "l \<in> set D" by (cases D) auto
    then have "l \<in> set T" "thr \<le> l" by (simp_all add: D)
    then have "thr \<le> last T" using T(4) by fastforce
    moreover have "last T \<in> set T" using T(1) by simp
    ultimately have "last T \<in> set D" by (simp add: D)
    then have "last T \<le> Max (set D)" by simp
    with T(3) show ?thesis by simp
  qed
  have p3: "D \<noteq> [] \<and> Min (set D) \<le> minV" if thr: "thr \<le> minV"
  proof -
    have "thr \<le> hd T"
    proof (cases "u = F")
      case True
      with thr have "(9::real) \<le> minV / 5" by (simp add: thr_def)
      then have "(9::int) \<le> \<lfloor>minV / 5\<rfloor>" by (simp add: le_floor_iff)
      then have "(9::real) \<le> of_int \<lfloor>minV / 5\<rfloor>" by linarith
      with True show ?thesis by (simp add: hdT thr_def)
    next
      case False
      with thr have "(4::real) \<le> minV / 2" by (simp add: thr_def)
      then have "(4::int) \<le> \<lfloor>minV / 2\<rfloor>" by (simp add: le_floor_iff)
      then have "(4::real) \<le> of_int \<lfloor>minV / 2\<rfloor>" by linarith
      with False show ?thesis by (simp add: hdT thr_def)
    qed
    moreover have "hd T \<in> set T" using T(1) by simp
    ultimately have m: "hd T \<in> set D" by (simp add: D)
    then have "D \<noteq> []" by auto
    moreover from m have "Min (set D) \<le> hd T" by simp
    ultimately show ?thesis using T(2) by simp
  qed
  from p1 p2 p3 show ?thesis unfolding D_def thr_def by blast
qed

text \<open>
  C5, as stated, at a dewpoint grid in \<degree>F whose finite values are 30 and 60: the levels are
  45, 50, 55, 60, and the smallest of them is above the grid minimum.
\<close>

theorem C5_dewpoint_counterexample:
  "gridMinMax [Fin 30, NaN, Fin 60] = Some (30, 60) \<and>
   buildLevels Dewpoint F 30 60 = [45, 50, 55, 60] \<and>
   \<not> Min (set (buildLevels Dewpoint F 30 60)) \<le> 30"
proof -
  have g: "gridMinMax [Fin 30, NaN, Fin 60] = Some (30, 60)"
    by (simp add: gridMinMax_def minMaxStep_def isFinite_def)
  have l: "buildLevels Dewpoint F 30 60 = [45, 50, 55, 60]"
    by (simp add: buildLevels_def dewpointLoop.simps)
  from g l show ?thesis by simp
qed

text \<open>
  C5, amended. Let \<open>minV\<close> and \<open>maxV\<close> be the minimum and maximum that the scan finds in a
  grid (they are attained, and bound every finite grid value). For temperature and for
  pressure the level list is not empty, its smallest level is \<open>\<le> minV\<close> and its largest is
  \<open>\<ge> maxV\<close>. For dewpoint every level is at or above the visibility threshold (45 \<degree>F, 8
  \<degree>C); the largest level is \<open>\<ge> maxV\<close> whenever the list is not empty, and the smallest is
  \<open>\<le> minV\<close> when \<open>minV\<close> is at or above the threshold.
\<close>

theorem C5_levels_bracket:
  assumes "gridMinMax gridVals = Some (minV, maxV)"
  shows "(mode = Temp \<or> mode = Slp \<longrightarrow>
            buildLevels mode u minV maxV \<noteq> [] \<and>
            Min (set (buildLevels mode u minV maxV)) \<le> minV \<and>
            maxV \<le> Max (set (buildLevels mode u minV maxV))) \<and>
         (\<forall>l\<in>set (buildLevels Dewpoint u minV maxV). (if u = F then 45 else 8) \<le> l) \<and>
         (buildLevels Dewpoint u minV maxV \<noteq> []
            \<longrightarrow> maxV \<le> Max (set (buildLevels Dewpoint u minV maxV))) \<and>
         ((if u = F then 45 else 8) \<le> minV
            \<longrightarrow> buildLevels Dewpoint u minV maxV \<noteq> [] \<and>
                 Min (set (buildLevels Dewpoint u minV maxV)) \<le> minV) \<and>
         Fin minV \<in> set gridVals \<and> Fin maxV \<in> set gridVals \<and>
         (\<forall>r. Fin r \<in> set gridVals \<longrightarrow> minV \<le> r \<and> r \<le> maxV)"
proof -
  from gridMinMax_bounds[OF assms]
  have g: "Fin minV \<in> set gridVals \<and> Fin maxV \<in> set gridVals \<and>
      (\<forall>r. Fin r \<in> set gridVals \<longrightarrow> minV \<le> r \<and> r \<le> maxV)" .
  then have le: "minV \<le> maxV" by blast
  have mm: "Min (set ls) \<le> hd ls \<and> last ls \<le> Max (set ls)"
    if "ls \<noteq> []" for ls :: "real list"
    using that by simp
  have tp: "mode = Temp \<or> mode = Slp \<longrightarrow>
            buildLevels mode u minV maxV \<noteq> [] \<and>
            Min (set (buildLevels mode u minV maxV)) \<le> minV \<and>
            maxV \<le> Max (set (buildLevels mode u minV maxV))"
  proof
    assume m: "mode = Temp \<or> mode = Slp"
    define ls where "ls = buildLevels mode u minV maxV"
    have b: "ls \<noteq> [] \<and> hd ls \<le> minV \<and> maxV \<le> last ls"
    proof (cases "mode = Temp")
      case True
      with temp_levels_bracket[OF le, of u] show ?thesis by (simp add: ls_def)
    next
      case False
      with m have "mode = Slp" by simp
      with slp_levels_bracket[OF le, of u] show ?thesis by (simp add: ls_def)
    qed
    then have ne: "ls \<noteq> []" by simp
    from mm[OF ne] b have "ls \<noteq> [] \<and> Min (set ls) \<le> minV \<and> maxV \<le> Max (set ls)"
      by linarith
    then show "buildLevels mode u minV maxV \<noteq> [] \<and>
            Min (set (buildLevels mode u minV maxV)) \<le> minV \<and>
            maxV \<le> Max (set (buildLevels mode u minV maxV))"
      unfolding ls_def .
  qed
  show ?thesis
    by (rule conjI[OF tp conjI[OF dewpoint_levels_props[OF le, of u, THEN conjunct1]
          conjI[OF dewpoint_levels_props[OF le, of u, THEN conjunct2, THEN conjunct1]
            conjI[OF dewpoint_levels_props[OF le, of u, THEN conjunct2, THEN conjunct2] g]]]])
qed

theorem C5_witness:
  "gridMinMax [Fin 31, NaN, Fin 58] = Some (31, 58) \<and>
   buildLevels Temp F 31 58 \<noteq> [] \<and>
   Min (set (buildLevels Temp F 31 58)) \<le> 31 \<and>
   58 \<le> Max (set (buildLevels Temp F 31 58)) \<and>
   buildLevels Temp F 31 58 = [30, 35, 40, 45, 50, 55, 60] \<and>
   buildLevels Slp F 1001 1010 = [1000, 1004, 1008, 1012] \<and>
   Min (set (buildLevels Slp F 1001 1010)) \<le> 1001 \<and>
   buildLevels Dewpoint F 50 60 \<noteq> [] \<and>
   Min (set (buildLevels Dewpoint F 50 60)) \<le> 50"
proof -
  have g3: "gridMinMax [Fin 60, Fin 50] = Some (50, 60)"
    by (simp add: gridMinMax_def minMaxStep_def isFinite_def)
  have "(if F = F then 45 else 8) \<le> (50::real) \<longrightarrow>
      buildLevels Dewpoint F 50 60 \<noteq> [] \<and> Min (set (buildLevels Dewpoint F 50 60)) \<le> 50"
    by (rule C5_levels_bracket[OF g3, of Temp F, THEN conjunct2, THEN conjunct2,
          THEN conjunct2, THEN conjunct1])
  then have d: "buildLevels Dewpoint F 50 60 \<noteq> [] \<and>
      Min (set (buildLevels Dewpoint F 50 60)) \<le> 50"
    by simp
  have g: "gridMinMax [Fin 31, NaN, Fin 58] = Some (31, 58)"
    by (simp add: gridMinMax_def minMaxStep_def isFinite_def)
  have g2: "gridMinMax [Fin 1001, Fin 1010] = Some (1001, 1010)"
    by (simp add: gridMinMax_def minMaxStep_def isFinite_def)
  have l: "buildLevels Temp F 31 58 = [30, 35, 40, 45, 50, 55, 60]"
    by (simp add: buildLevels_def tempLoop.simps)
  have l2: "buildLevels Slp F 1001 1010 = [1000, 1004, 1008, 1012]"
    by (simp add: buildLevels_def upto.simps)
  have "(Temp = Temp \<or> Temp = Slp) \<longrightarrow>
     buildLevels Temp F 31 58 \<noteq> [] \<and>
     Min (set (buildLevels Temp F 31 58)) \<le> 31 \<and>
     58 \<le> Max (set (buildLevels Temp F 31 58))"
    using C5_levels_bracket[OF g, of Temp F] by (rule conjunct1)
  then have t: "buildLevels Temp F 31 58 \<noteq> [] \<and>
     Min (set (buildLevels Temp F 31 58)) \<le> 31 \<and>
     58 \<le> Max (set (buildLevels Temp F 31 58))"
    by (simp only: simp_thms)
  have "(Slp = Temp \<or> Slp = Slp) \<longrightarrow>
     buildLevels Slp F 1001 1010 \<noteq> [] \<and>
     Min (set (buildLevels Slp F 1001 1010)) \<le> 1001 \<and>
     1010 \<le> Max (set (buildLevels Slp F 1001 1010))"
    using C5_levels_bracket[OF g2, of Slp F] by (rule conjunct1)
  then have p: "Min (set (buildLevels Slp F 1001 1010)) \<le> 1001"
    by (simp only: simp_thms)
  show ?thesis
    by (intro conjI g l l2 p t[THEN conjunct1] t[THEN conjunct2, THEN conjunct1]
        t[THEN conjunct2, THEN conjunct2] d[THEN conjunct1] d[THEN conjunct2])
qed

subsection \<open>Scalar interpolation\<close>



lemma length_insertNeighbor [simp]: "length (insertNeighbor n zs) = Suc (length zs)"
  by (induction zs) auto



























subsection \<open>Contour labels\<close>

lemma labelCandidates_fold:
  "fold (\<lambda>seg candidates.
             if length seg < 2 then candidates
             else
               let p = seg ! 0;
                   q = seg ! (length seg - 1);
                   l = hypot (x q - x p) (y q - y p)
               in if l \<ge> 30 then candidates @ [\<lparr>a = p, b = q, len = l\<rparr>] else candidates)
          segments acc
     = acc @ map candidateOf (filter (\<lambda>seg. 2 \<le> length seg \<and> 30 \<le> chord seg) segments)"
proof (induction segments arbitrary: acc)
  case Nil
  then show ?case by simp
next
  case (Cons seg segments)
  have "length seg \<ge> 2 \<Longrightarrow> seg ! 0 = hd seg \<and> seg ! (length seg - 1) = last seg"
    by (cases seg) (auto simp: last_conv_nth)
  then show ?case
    by (auto simp: Cons Let_def candidateOf_def chord_def)
qed

lemma labelCandidates_eq:
  "labelCandidates segments
     = map candidateOf (filter (\<lambda>seg. 2 \<le> length seg \<and> 30 \<le> chord seg) segments)"
  by (simp add: labelCandidates_def labelCandidates_fold)

lemma labelledCandidates_take:
  "labelledCandidates segments = take 5 (sortCandidates (labelCandidates segments))"
  by (auto simp: labelledCandidates_def Let_def intro!: nth_equalityI)

lemma sorted_desc:
  "sorted_wrt (\<lambda>c d. len d \<le> len c) (sortCandidates cs)"
proof -
  have "sorted (map (\<lambda>c. - len c) (sortCandidates cs))"
    by (simp add: sortCandidates_def)
  then show ?thesis
    by (simp add: sorted_map sorted_wrt_iff_nth_less)
qed

lemma arctan_range: "- (pi / 2) < arctan t \<and> arctan t < pi / 2"
  using arctan_lbound[of t] arctan_ubound[of t] by simp

lemma labelAngle_range:
  "- (pi / 2) \<le> labelAngle cand \<and> labelAngle cand \<le> pi / 2"
proof -
  define dx where "dx = x (b cand) - x (a cand)"
  define dy where "dy = y (b cand) - y (a cand)"
  define t where "t = arctan (dy / dx)"
  have r: "- (pi / 2) < t" "t < pi / 2" using arctan_range[of "dy / dx"] by (simp_all add: t_def)
  have p: "0 < pi" by simp
  consider "dx > 0" | "dx < 0" "dy \<ge> 0" | "dx < 0" "dy < 0" | "dx = 0"
    by linarith
  then have "- (pi / 2) \<le> (let angle = atan2 dy dx in if angle > pi / 2 then angle - pi
         else if angle < - (pi / 2) then angle + pi else angle) \<and>
      (let angle = atan2 dy dx in if angle > pi / 2 then angle - pi
         else if angle < - (pi / 2) then angle + pi else angle) \<le> pi / 2"
  proof cases
    case 1
    with r p show ?thesis by (simp add: atan2_def Let_def t_def[symmetric])
  next
    case 2
    then have "dy / dx \<le> 0" by (simp add: divide_nonneg_neg)
    then have "t \<le> 0" unfolding t_def by (simp add: arctan_le_zero_iff)
    with 2 r p show ?thesis by (auto simp add: atan2_def Let_def t_def[symmetric])
  next
    case 3
    then have "0 < dy / dx" by (simp add: divide_neg_neg)
    then have "0 < t" unfolding t_def by (simp add: zero_less_arctan_iff)
    with 3 r p show ?thesis by (auto simp add: atan2_def Let_def t_def[symmetric])
  next
    case 4
    with p show ?thesis by (auto simp add: atan2_def Let_def)
  qed
  then show ?thesis
    by (simp add: labelAngle_def dx_def dy_def Let_def)
qed

lemma drawLabel_calls:
  "drawLabel label col cand c = c\<lparr>calls := calls c @ labelCalls label col cand\<rparr>"
  by (simp add: drawLabel_def labelCalls_def Let_def save_def restore_def emit_def setLineWidth_def)

lemma fold_drawLabel:
  "fold (drawLabel label col) cs c
     = c\<lparr>calls := calls c @ concat (map (labelCalls label col) cs)\<rparr>"
  by (induction cs arbitrary: c) (simp_all add: drawLabel_calls)

lemma labelContours_calls:
  "labelContours c segments level mode tempUnit fz
       = c\<lparr>calls := calls c @
            [Save, SetGlobalAlpha 1, SetCompositeOp ''source-over'', SetLineDash [],
             SetFont ''bold 14px system-ui, sans-serif'', SetTextAlign ''center'',
             SetTextBaseline ''middle'']
            @ concat (map (labelCalls (snd (labelStyle level mode tempUnit fz))
                                      (fst (labelStyle level mode tempUnit fz)))
                          (labelledCandidates segments))
            @ [Restore]\<rparr>"
proof -
  have e: "labelledCandidates segments = []" if "labelCandidates segments = []"
    using that by (simp add: labelledCandidates_def sortCandidates_def)
  show ?thesis
  proof (cases "labelCandidates segments = []")
    case True
    then show ?thesis
      by (simp add: labelContours_def Let_def e save_def restore_def emit_def split: prod.splits)
  next
    case False
    then show ?thesis
      by (simp add: labelContours_def Let_def fold_drawLabel save_def restore_def emit_def
          split: prod.splits)
  qed
qed

lemma cornerCode_bits:
  "cornerCode v0 v1 v2 v3 level
     = (if v0 \<ge> level then 1 else 0) + (if v1 \<ge> level then 2 else 0)
       + (if v2 \<ge> level then 4 else 0) + (if v3 \<ge> level then 8 else 0)"
  by (simp add: cornerCode_def)

lemma edge_t:
  fixes va vb level :: real
  assumes "(va \<ge> level) \<noteq> (vb \<ge> level)"
  shows "0 \<le> (level - va) / orElse (vb - va) (1 / 10 ^ 9)"
    and "(level - va) / orElse (vb - va) (1 / 10 ^ 9) \<le> 1"
    and "((level - va) / orElse (vb - va) (1 / 10 ^ 9) = 0) = (level = va)"
    and "((level - va) / orElse (vb - va) (1 / 10 ^ 9) = 1) = (level = vb)"
proof -
  have ne: "vb - va \<noteq> 0" using assms by auto
  then have o: "orElse (vb - va) (1 / 10 ^ 9) = vb - va" by (simp add: orElse_def)
  show "0 \<le> (level - va) / orElse (vb - va) (1 / 10 ^ 9)"
    unfolding o using assms by (auto simp: zero_le_divide_iff)
  show "(level - va) / orElse (vb - va) (1 / 10 ^ 9) \<le> 1"
    unfolding o using assms by (auto simp: divide_le_eq)
  show "((level - va) / orElse (vb - va) (1 / 10 ^ 9) = 0) = (level = va)"
    unfolding o using ne by auto
  show "((level - va) / orElse (vb - va) (1 / 10 ^ 9) = 1) = (level = vb)"
    unfolding o using ne by (auto simp: divide_eq_eq)
qed

lemma segments_not_upward:
  assumes seg: "seg \<in> set (segmentsOfCode c \<lparr>x = X + A, y = Y\<rparr> \<lparr>x = X + s, y = Y + B\<rparr>
                              \<lparr>x = X + K, y = Y + s\<rparr> \<lparr>x = X, y = Y + D\<rparr>)"
    and s: "0 \<le> s"
    and e01: "c \<in> {1, 2, 5, 6, 9, 10, 13, 14} \<Longrightarrow> 0 \<le> A \<and> A \<le> s"
    and e12: "c \<in> {2, 3, 4, 5, 10, 11, 12, 13} \<Longrightarrow> 0 \<le> B \<and> B \<le> s"
    and e23: "c \<in> {4, 5, 6, 7, 8, 9, 10, 11} \<Longrightarrow> 0 \<le> K \<and> K \<le> s"
    and e30: "c \<in> {1, 3, 5, 7, 8, 10, 12, 14} \<Longrightarrow> 0 \<le> D \<and> D \<le> s"
    and k1: "c \<in> {1, 14} \<Longrightarrow> A = 0 \<Longrightarrow> D = 0"
    and k8: "c = 8 \<Longrightarrow> K = 0 \<Longrightarrow> D = s"
  shows "\<exists>p q. seg = [p, q] \<and> \<not> (x q - x p = 0 \<and> y q - y p < 0)"
proof -
  consider "c = 1" | "c = 2" | "c = 3" | "c = 4" | "c = 5" | "c = 6" | "c = 7" | "c = 8"
    | "c = 9" | "c = 10" | "c = 11" | "c = 12" | "c = 13" | "c = 14"
    | "c \<notin> {1, 2, 3, 4, 5, 6, 7, 8, 9, 10, 11, 12, 13, 14}"
    by auto
  then show ?thesis
  proof cases
    case 1 with seg s e01 e30 k1 show ?thesis by (auto simp: segmentsOfCode_def)
  next
    case 2 with seg s e01 e12 show ?thesis by (auto simp: segmentsOfCode_def)
  next
    case 3 with seg s e12 e30 show ?thesis by (auto simp: segmentsOfCode_def)
  next
    case 4 with seg s e12 e23 show ?thesis by (auto simp: segmentsOfCode_def)
  next
    case 5 with seg s e01 e12 e23 e30 show ?thesis by (auto simp: segmentsOfCode_def)
  next
    case 6 with seg s e01 e23 show ?thesis by (auto simp: segmentsOfCode_def)
  next
    case 7 with seg s e23 e30 show ?thesis by (auto simp: segmentsOfCode_def)
  next
    case 8 with seg s e23 e30 k8 show ?thesis by (auto simp: segmentsOfCode_def)
  next
    case 9 with seg s e01 e23 show ?thesis by (auto simp: segmentsOfCode_def)
  next
    case 10 with seg s e01 e12 e23 e30 show ?thesis by (auto simp: segmentsOfCode_def)
  next
    case 11 with seg s e12 e23 show ?thesis by (auto simp: segmentsOfCode_def)
  next
    case 12 with seg s e12 e30 show ?thesis by (auto simp: segmentsOfCode_def)
  next
    case 13 with seg s e01 e12 show ?thesis by (auto simp: segmentsOfCode_def)
  next
    case 14 with seg s e01 e30 k1 show ?thesis by (auto simp: segmentsOfCode_def)
  next
    case 15 with seg show ?thesis by (auto simp: segmentsOfCode_def)
  qed
qed


lemma offset_range:
  fixes s t :: real
  assumes "0 \<le> s" "0 \<le> t" "t \<le> 1"
  shows "0 \<le> interp 0 s t \<and> interp 0 s t \<le> s" and "0 \<le> interp s 0 t \<and> interp s 0 t \<le> s"
proof -
  have a: "0 \<le> s * t" using assms by simp
  have b: "s * t \<le> s" using assms by (simp add: mult_left_le)
  from a b show "0 \<le> interp 0 s t \<and> interp 0 s t \<le> s" by (simp add: interp_def)
  from a b show "0 \<le> interp s 0 t \<and> interp s 0 t \<le> s" by (simp add: interp_def)
qed

lemma cellSegments_not_upward:
  assumes s: "0 \<le> step" and seg: "seg \<in> set (cellSegments g nx step level i j)"
  shows "\<exists>p q. seg = [p, q] \<and> \<not> (x q - x p = 0 \<and> y q - y p < 0)"
proof -
  define v0 where "v0 = theNum (gridRead g (idx nx i j))"
  define v1 where "v1 = theNum (gridRead g (idx nx (i + 1) j))"
  define v2 where "v2 = theNum (gridRead g (idx nx (i + 1) (j + 1)))"
  define v3 where "v3 = theNum (gridRead g (idx nx i (j + 1)))"
  define c where "c = cornerCode v0 v1 v2 v3 level"
  define t01 where "t01 = (level - v0) / orElse (v1 - v0) (1 / 10 ^ 9)"
  define t12 where "t12 = (level - v1) / orElse (v2 - v1) (1 / 10 ^ 9)"
  define t23 where "t23 = (level - v2) / orElse (v3 - v2) (1 / 10 ^ 9)"
  define t30 where "t30 = (level - v3) / orElse (v0 - v3) (1 / 10 ^ 9)"
  from seg have ne: "cellSegments g nx step level i j \<noteq> []" by auto
  have cs: "cellSegments g nx step level i j
      = segmentsOfCode c \<lparr>x = real i * step + interp 0 step t01, y = real j * step\<rparr>
          \<lparr>x = real i * step + step, y = real j * step + interp 0 step t12\<rparr>
          \<lparr>x = real i * step + interp step 0 t23, y = real j * step + step\<rparr>
          \<lparr>x = real i * step, y = real j * step + interp step 0 t30\<rparr>"
    using ne
    by (simp add: cellSegments_def Let_def v0_def v1_def v2_def v3_def c_def
        t01_def t12_def t23_def t30_def split: if_splits)
  have cb: "c = (if v0 \<ge> level then 1 else 0) + (if v1 \<ge> level then 2 else 0)
       + (if v2 \<ge> level then 4 else 0) + (if v3 \<ge> level then 8 else 0)"
    unfolding c_def by (rule cornerCode_bits)
  have x01: "(v0 \<ge> level) \<noteq> (v1 \<ge> level)" if "c \<in> {1, 2, 5, 6, 9, 10, 13, 14}"
    using that unfolding cb by (auto split: if_splits)
  have x12: "(v1 \<ge> level) \<noteq> (v2 \<ge> level)" if "c \<in> {2, 3, 4, 5, 10, 11, 12, 13}"
    using that unfolding cb by (auto split: if_splits)
  have x23: "(v2 \<ge> level) \<noteq> (v3 \<ge> level)" if "c \<in> {4, 5, 6, 7, 8, 9, 10, 11}"
    using that unfolding cb by (auto split: if_splits)
  have x30: "(v3 \<ge> level) \<noteq> (v0 \<ge> level)" if "c \<in> {1, 3, 5, 7, 8, 10, 12, 14}"
    using that unfolding cb by (auto split: if_splits)
  have e01: "0 \<le> interp 0 step t01 \<and> interp 0 step t01 \<le> step"
    if "c \<in> {1, 2, 5, 6, 9, 10, 13, 14}"
    unfolding t01_def using edge_t(1,2)[OF x01[OF that]] s by (intro offset_range)
  have e12: "0 \<le> interp 0 step t12 \<and> interp 0 step t12 \<le> step"
    if "c \<in> {2, 3, 4, 5, 10, 11, 12, 13}"
    unfolding t12_def using edge_t(1,2)[OF x12[OF that]] s by (intro offset_range)
  have e23: "0 \<le> interp step 0 t23 \<and> interp step 0 t23 \<le> step"
    if "c \<in> {4, 5, 6, 7, 8, 9, 10, 11}"
    unfolding t23_def using edge_t(1,2)[OF x23[OF that]] s by (intro offset_range)
  have e30: "0 \<le> interp step 0 t30 \<and> interp step 0 t30 \<le> step"
    if "c \<in> {1, 3, 5, 7, 8, 10, 12, 14}"
    unfolding t30_def using edge_t(1,2)[OF x30[OF that]] s by (intro offset_range)
  have k1: "interp step 0 t30 = 0" if c: "c \<in> {1, 14}" and z: "interp 0 step t01 = 0"
  proof -
    from c have a: "(v0 \<ge> level) \<noteq> (v1 \<ge> level)" and b: "(v3 \<ge> level) \<noteq> (v0 \<ge> level)"
      using x01 x30 by auto
    from z have "step = 0 \<or> t01 = 0" by (simp add: interp_def)
    then show ?thesis
    proof
      assume "step = 0" then show ?thesis by (simp add: interp_def)
    next
      assume "t01 = 0"
      then have "level = v0" using edge_t(3)[OF a] by (simp add: t01_def)
      then have "t30 = 1" using edge_t(4)[OF b] by (simp add: t30_def)
      then show ?thesis by (simp add: interp_def)
    qed
  qed
  have k8: "interp step 0 t30 = step" if c: "c = 8" and z: "interp step 0 t23 = 0"
  proof -
    from c have a: "(v2 \<ge> level) \<noteq> (v3 \<ge> level)" and b: "(v3 \<ge> level) \<noteq> (v0 \<ge> level)"
      using x23 x30 by auto
    from z have "step * (1 - t23) = 0" by (simp add: interp_def algebra_simps)
    then have "step = 0 \<or> t23 = 1" by simp
    then show ?thesis
    proof
      assume "step = 0" then show ?thesis by (simp add: interp_def)
    next
      assume "t23 = 1"
      then have "level = v3" using edge_t(4)[OF a] by (simp add: t23_def)
      then have "t30 = 0" using edge_t(3)[OF b] by (simp add: t30_def)
      then show ?thesis by (simp add: interp_def)
    qed
  qed
  from seg have "seg \<in> set (segmentsOfCode c
          \<lparr>x = real i * step + interp 0 step t01, y = real j * step\<rparr>
          \<lparr>x = real i * step + step, y = real j * step + interp 0 step t12\<rparr>
          \<lparr>x = real i * step + interp step 0 t23, y = real j * step + step\<rparr>
          \<lparr>x = real i * step, y = real j * step + interp step 0 t30\<rparr>)"
    by (simp only: cs)
  then show ?thesis
    using s e01 e12 e23 e30 k1 k8 by (rule segments_not_upward)
qed

lemma contours_not_upward:
  assumes "0 \<le> step" "seg \<in> set (contoursForLevel g nx ny step level)"
  shows "\<exists>p q. seg = [p, q] \<and> \<not> (x q - x p = 0 \<and> y q - y p < 0)"
  using assms cellSegments_not_upward by (auto simp: contoursForLevel_set)

lemma labelAngle_lower_strict:
  assumes "\<not> (x (b cand) - x (a cand) = 0 \<and> y (b cand) - y (a cand) < 0)"
  shows "- (pi / 2) < labelAngle cand"
proof -
  define dx where "dx = x (b cand) - x (a cand)"
  define dy where "dy = y (b cand) - y (a cand)"
  define t where "t = arctan (dy / dx)"
  have r: "- (pi / 2) < t" "t < pi / 2" using arctan_range[of "dy / dx"] by (simp_all add: t_def)
  have p: "0 < pi" by simp
  from assms have nu: "\<not> (dx = 0 \<and> dy < 0)" by (simp add: dx_def dy_def)
  consider "dx > 0" | "dx < 0" "dy \<ge> 0" | "dx < 0" "dy < 0" | "dx = 0" "dy \<ge> 0"
    using nu by linarith
  then have "- (pi / 2) < (let angle = atan2 dy dx in if angle > pi / 2 then angle - pi
         else if angle < - (pi / 2) then angle + pi else angle)"
  proof cases
    case 1
    with r p show ?thesis by (simp add: atan2_def Let_def t_def[symmetric])
  next
    case 2
    then have "dy / dx \<le> 0" by (simp add: divide_nonneg_neg)
    then have "t \<le> 0" unfolding t_def by (simp add: arctan_le_zero_iff)
    with 2 r p show ?thesis by (auto simp add: atan2_def Let_def t_def[symmetric])
  next
    case 3
    then have "0 < dy / dx" by (simp add: divide_neg_neg)
    then have "0 < t" unfolding t_def by (simp add: zero_less_arctan_iff)
    with 3 r p show ?thesis by (auto simp add: atan2_def Let_def t_def[symmetric])
  next
    case 4
    with p show ?thesis by (auto simp add: atan2_def Let_def)
  qed
  then show ?thesis
    by (simp add: labelAngle_def dx_def dy_def Let_def)
qed

lemma atan2_direction: "dx * sin (atan2 dy dx) = dy * cos (atan2 dy dx)"
proof -
  have t: "dx * sin (arctan (dy / dx)) = dy * cos (arctan (dy / dx))" if "dx \<noteq> 0"
  proof -
    have c: "cos (arctan (dy / dx)) \<noteq> 0" using cos_arctan_not_zero by simp
    have "tan (arctan (dy / dx)) = dy / dx" by (rule tan_arctan)
    then have "sin (arctan (dy / dx)) / cos (arctan (dy / dx)) = dy / dx"
      by (simp add: tan_def)
    with c that show ?thesis by (simp add: field_simps)
  qed
  show ?thesis
  proof (cases "dx = 0")
    case True
    then show ?thesis by (simp add: atan2_def)
  next
    case False
    with t[OF False] show ?thesis
      by (auto simp: atan2_def sin_diff cos_diff)
  qed
qed

lemma labelAngle_chord:
  "(\<exists>k\<in>{- 1, 0, 1 :: int}.
      labelAngle cand
        = atan2 (y (b cand) - y (a cand)) (x (b cand) - x (a cand)) + of_int k * pi) \<and>
   (x (b cand) - x (a cand)) * sin (labelAngle cand)
     = (y (b cand) - y (a cand)) * cos (labelAngle cand)"
proof -
  define dx where "dx = x (b cand) - x (a cand)"
  define dy where "dy = y (b cand) - y (a cand)"
  have d: "dx * sin (atan2 dy dx) = dy * cos (atan2 dy dx)" by (rule atan2_direction)
  have l: "labelAngle cand = (if atan2 dy dx > pi / 2 then atan2 dy dx - pi
         else if atan2 dy dx < - (pi / 2) then atan2 dy dx + pi else atan2 dy dx)"
    by (simp add: labelAngle_def Let_def dx_def dy_def)
  have "\<exists>k\<in>{- 1, 0, 1 :: int}. labelAngle cand = atan2 dy dx + of_int k * pi"
    unfolding l by auto
  moreover have "dx * sin (labelAngle cand) = dy * cos (labelAngle cand)"
    unfolding l using d by (auto simp: sin_diff cos_diff)
  ultimately show ?thesis unfolding dx_def dy_def by blast
qed

text \<open>
  The strict lower bound rests on where the segments come from: a chord that points straight
  up, which no cell of \<^verbatim>\<open>contoursForLevel\<close> produces, keeps the rotation \<open>- \<pi> / 2\<close>.
\<close>

lemma labelAngle_upward_chord:
  "labelAngle \<lparr>a = \<lparr>x = 0, y = 40\<rparr>, b = \<lparr>x = 0, y = 0\<rparr>, len = 40\<rparr> = - (pi / 2)"
proof -
  have p: "\<not> pi < 0" using pi_gt_zero by linarith
  show ?thesis
    using p by (simp add: labelAngle_def atan2_def Let_def)
qed

text \<open>
  C8. For one level's segment list the labelled candidates are at most five; each is built
  from the first and last point of a segment with at least two points and has a chord of at
  least 30 px; they are in descending order of chord length; a segment with a chord of at
  least 30 px that is not labelled is no longer than any of the five that are; every label is
  drawn at the midpoint of its chord (the \<open>Translate\<close> call) under a rotation (the \<open>Rotate\<close>
  call) that is the chord's angle, as \<^verbatim>\<open>Math.atan2\<close> gives it, plus a whole multiple of \<open>\<pi>\<close>: it
  points along the chord and lies between \<open>- \<pi> / 2\<close> and \<open>\<pi> / 2\<close>. When the list is what
  \<^verbatim>\<open>contoursForLevel\<close> returns for a grid, a level and a step that is not negative, as it is at
  every call of \<^verbatim>\<open>labelContours\<close>, the rotation is strictly above \<open>- \<pi> / 2\<close>.
\<close>

theorem C8_label_placement:
  "length (labelledCandidates segments) \<le> 5 \<and>
   (\<forall>c\<in>set (labelledCandidates segments).
      30 \<le> len c \<and> (\<exists>seg\<in>set segments. 2 \<le> length seg \<and> c = candidateOf seg)) \<and>
   sorted_wrt (\<lambda>c d. len d \<le> len c) (labelledCandidates segments) \<and>
   (\<forall>seg\<in>set segments. 2 \<le> length seg \<and> 30 \<le> chord seg \<longrightarrow>
      candidateOf seg \<in> set (labelledCandidates segments) \<or>
      (length (labelledCandidates segments) = 5 \<and>
       (\<forall>c\<in>set (labelledCandidates segments). chord seg \<le> len c))) \<and>
   (\<forall>c\<in>set (labelledCandidates segments).
      (\<exists>k\<in>{- 1, 0, 1 :: int}.
         labelAngle c = atan2 (y (b c) - y (a c)) (x (b c) - x (a c)) + of_int k * pi) \<and>
      (x (b c) - x (a c)) * sin (labelAngle c) = (y (b c) - y (a c)) * cos (labelAngle c) \<and>
      - (pi / 2) \<le> labelAngle c \<and> labelAngle c \<le> pi / 2) \<and>
   (0 \<le> step \<and> segments = contoursForLevel gridVals nx ny step level \<longrightarrow>
      (\<forall>c\<in>set (labelledCandidates segments). - (pi / 2) < labelAngle c)) \<and>
   labelContours c0 segments level mode tempUnit fz
     = c0\<lparr>calls := calls c0 @
          [Save, SetGlobalAlpha 1, SetCompositeOp ''source-over'', SetLineDash [],
           SetFont ''bold 14px system-ui, sans-serif'', SetTextAlign ''center'',
           SetTextBaseline ''middle'']
          @ concat (map (labelCalls (snd (labelStyle level mode tempUnit fz))
                                    (fst (labelStyle level mode tempUnit fz)))
                        (labelledCandidates segments))
          @ [Restore]\<rparr>"
proof -
  define cs where "cs = labelCandidates segments"
  define S where "S = sortCandidates cs"
  define L where "L = labelledCandidates segments"
  have L: "L = take 5 S" unfolding L_def S_def cs_def by (rule labelledCandidates_take)
  have setS: "set S = set cs" unfolding S_def sortCandidates_def by simp
  have cs: "cs = map candidateOf (filter (\<lambda>seg. 2 \<le> length seg \<and> 30 \<le> chord seg) segments)"
    unfolding cs_def by (rule labelCandidates_eq)
  have sub: "set L \<subseteq> set cs" using setS by (auto simp: L dest: in_set_takeD)
  have p1: "length L \<le> 5" by (simp add: L)
  have p2: "\<forall>c\<in>set L. 30 \<le> len c \<and> (\<exists>seg\<in>set segments. 2 \<le> length seg \<and> c = candidateOf seg)"
  proof
    fix c assume "c \<in> set L"
    with sub have "c \<in> set cs" by blast
    then obtain seg where "seg \<in> set segments" "2 \<le> length seg" "30 \<le> chord seg"
        "c = candidateOf seg"
      by (auto simp: cs)
    then show "30 \<le> len c \<and> (\<exists>seg\<in>set segments. 2 \<le> length seg \<and> c = candidateOf seg)"
      by (auto simp: candidateOf_def)
  qed
  have sS: "sorted_wrt (\<lambda>c d. len d \<le> len c) S" unfolding S_def by (rule sorted_desc)
  have p3: "sorted_wrt (\<lambda>c d. len d \<le> len c) L"
    using sS by (simp add: L sorted_wrt_take)
  have p4: "\<forall>seg\<in>set segments. 2 \<le> length seg \<and> 30 \<le> chord seg \<longrightarrow>
      candidateOf seg \<in> set L \<or> (length L = 5 \<and> (\<forall>c\<in>set L. chord seg \<le> len c))"
  proof (intro ballI impI)
    fix seg assume seg: "seg \<in> set segments" "2 \<le> length seg \<and> 30 \<le> chord seg"
    then have "candidateOf seg \<in> set S" by (auto simp: setS cs)
    then have "candidateOf seg \<in> set (take 5 S) \<or> candidateOf seg \<in> set (drop 5 S)"
      by (metis Un_iff append_take_drop_id set_append)
    then show "candidateOf seg \<in> set L \<or> (length L = 5 \<and> (\<forall>c\<in>set L. chord seg \<le> len c))"
    proof
      assume "candidateOf seg \<in> set (take 5 S)"
      then show ?thesis by (simp add: L)
    next
      assume d: "candidateOf seg \<in> set (drop 5 S)"
      then have "drop 5 S \<noteq> []" by auto
      then have l5: "length L = 5" by (simp add: L)
      have "sorted_wrt (\<lambda>c d. len d \<le> len c) (take 5 S @ drop 5 S)" using sS by simp
      then have "\<forall>c\<in>set (take 5 S). \<forall>d\<in>set (drop 5 S). len d \<le> len c"
        by (simp only: sorted_wrt_append) simp
      with d have "\<forall>c\<in>set L. len (candidateOf seg) \<le> len c" by (auto simp: L)
      then have "\<forall>c\<in>set L. chord seg \<le> len c" by (simp add: candidateOf_def)
      with l5 show ?thesis by simp
    qed
  qed
  have p5: "\<forall>c\<in>set L.
      (\<exists>k\<in>{- 1, 0, 1 :: int}.
         labelAngle c = atan2 (y (b c) - y (a c)) (x (b c) - x (a c)) + of_int k * pi) \<and>
      (x (b c) - x (a c)) * sin (labelAngle c) = (y (b c) - y (a c)) * cos (labelAngle c) \<and>
      - (pi / 2) \<le> labelAngle c \<and> labelAngle c \<le> pi / 2"
    using labelAngle_range labelAngle_chord by blast
  have p6: "0 \<le> step \<and> segments = contoursForLevel gridVals nx ny step level \<longrightarrow>
      (\<forall>c\<in>set L. - (pi / 2) < labelAngle c)"
  proof (intro impI ballI)
    fix c
    assume h: "0 \<le> step \<and> segments = contoursForLevel gridVals nx ny step level"
      and c: "c \<in> set L"
    from p2 c obtain seg where seg: "seg \<in> set segments" "c = candidateOf seg" by blast
    from h seg(1) have "seg \<in> set (contoursForLevel gridVals nx ny step level)" by simp
    with h obtain p q where pq: "seg = [p, q]" "\<not> (x q - x p = 0 \<and> y q - y p < 0)"
      using contours_not_upward by blast
    from pq seg(2) have "\<not> (x (b c) - x (a c) = 0 \<and> y (b c) - y (a c) < 0)"
      by (simp add: candidateOf_def)
    then show "- (pi / 2) < labelAngle c" by (rule labelAngle_lower_strict)
  qed
  from p1 p2 p3 p4 p5 p6 labelContours_calls[of c0 segments level mode tempUnit fz]
  show ?thesis unfolding L_def by (intro conjI)
qed

theorem C8_witness:
  "(0::real) \<le> 40 \<and>
   contoursForLevel [Fin 30, Fin 40, Fin 20, Fin 50] 2 2 40 35
     = [[\<lparr>x = 20, y = 0\<rparr>, \<lparr>x = 20, y = 40\<rparr>]] \<and>
   labelledCandidates (contoursForLevel [Fin 30, Fin 40, Fin 20, Fin 50] 2 2 40 35)
     = [\<lparr>a = \<lparr>x = 20, y = 0\<rparr>, b = \<lparr>x = 20, y = 40\<rparr>, len = 40\<rparr>] \<and>
   length (labelledCandidates (contoursForLevel [Fin 30, Fin 40, Fin 20, Fin 50] 2 2 40 35)) \<le> 5 \<and>
   - (pi / 2) < labelAngle \<lparr>a = \<lparr>x = 20, y = 0\<rparr>, b = \<lparr>x = 20, y = 40\<rparr>, len = 40\<rparr> \<and>
   labelAngle \<lparr>a = \<lparr>x = 20, y = 0\<rparr>, b = \<lparr>x = 20, y = 40\<rparr>, len = 40\<rparr> \<le> pi / 2 \<and>
   labelAngle \<lparr>a = \<lparr>x = 20, y = 0\<rparr>, b = \<lparr>x = 20, y = 40\<rparr>, len = 40\<rparr> = pi / 2 \<and>
   30 \<le> len \<lparr>a = \<lparr>x = 20, y = 0\<rparr>, b = \<lparr>x = 20, y = 40\<rparr>, len = 40\<rparr> \<and>
   labelledCandidates [[\<lparr>x = 0, y = 0\<rparr>, \<lparr>x = 40, y = 0\<rparr>],
                       [\<lparr>x = 0, y = 0\<rparr>, \<lparr>x = 3, y = 4\<rparr>],
                       [\<lparr>x = 0, y = 0\<rparr>, \<lparr>x = 10, y = 10\<rparr>, \<lparr>x = 0, y = 50\<rparr>]]
     = [\<lparr>a = \<lparr>x = 0, y = 0\<rparr>, b = \<lparr>x = 0, y = 50\<rparr>, len = 50\<rparr>,
        \<lparr>a = \<lparr>x = 0, y = 0\<rparr>, b = \<lparr>x = 40, y = 0\<rparr>, len = 40\<rparr>]"
proof -
  let ?g = "[Fin 30, Fin 40, Fin 20, Fin 50]"
  let ?c = "\<lparr>a = \<lparr>x = 20, y = 0\<rparr>, b = \<lparr>x = 20, y = 40\<rparr>, len = 40\<rparr>"
  have s: "contoursForLevel ?g 2 2 40 35 = [[\<lparr>x = 20, y = 0\<rparr>, \<lparr>x = 20, y = 40\<rparr>]]"
    by (simp add: contoursForLevel_def cellSegments_def gridRead_def idx_def isFinite_def
        cornerCode_def segmentsOfCode_def orElse_def interp_def)
  have v: "labelledCandidates (contoursForLevel ?g 2 2 40 35) = [?c]"
    by (simp only: s) (simp add: labelledCandidates_take sortCandidates_def labelCandidates_def hypot_def)
  have m: "?c \<in> set (labelledCandidates (contoursForLevel ?g 2 2 40 35))"
    by (simp only: v) simp
  have h: "(0::real) \<le> 40 \<and> contoursForLevel ?g 2 2 40 35 = contoursForLevel ?g 2 2 40 35"
    by simp
  note t = C8_label_placement[of "contoursForLevel ?g 2 2 40 35" 40 ?g 2 2 35]
  have l: "length (labelledCandidates (contoursForLevel ?g 2 2 40 35)) \<le> 5"
    using t by (rule conjunct1)
  have g1: "- (pi / 2) < labelAngle ?c"
    using t h m by blast
  have g2: "labelAngle ?c \<le> pi / 2"
    using t m by blast
  have g4: "30 \<le> len ?c"
    using t m by blast
  have p: "\<not> pi < 0" using pi_gt_zero by linarith
  have g3: "labelAngle ?c = pi / 2"
    using p by (simp add: labelAngle_def atan2_def Let_def)
  have w: "labelledCandidates [[\<lparr>x = 0, y = 0\<rparr>, \<lparr>x = 40, y = 0\<rparr>],
                       [\<lparr>x = 0, y = 0\<rparr>, \<lparr>x = 3, y = 4\<rparr>],
                       [\<lparr>x = 0, y = 0\<rparr>, \<lparr>x = 10, y = 10\<rparr>, \<lparr>x = 0, y = 50\<rparr>]]
     = [\<lparr>a = \<lparr>x = 0, y = 0\<rparr>, b = \<lparr>x = 0, y = 50\<rparr>, len = 50\<rparr>,
        \<lparr>a = \<lparr>x = 0, y = 0\<rparr>, b = \<lparr>x = 40, y = 0\<rparr>, len = 40\<rparr>]"
    by (simp add: labelledCandidates_take sortCandidates_def labelCandidates_def hypot_def)
  have z: "(0::real) \<le> 40" by simp
  from z s v l g1 g2 g3 g4 w show ?thesis by (intro conjI)
qed

end
